theory Spec2Isabelle
  imports
    Main
    "HOL-Library.Char_ord"
    "HOL-Library.List_Lexorder"
    "HOL-Library.Product_Lexorder"
    "HOL-Library.Multiset"
    "HOL-Library.Transitive_Closure_Table"
begin

section \<open>Expression algebra (probability.py)\<close>

text \<open>
  The Python code builds its terms from sympy objects. A value is a sympy integer or a
  sympy symbol; it is only ever rendered and compared. (The parser can also produce
  floats; they are outside this model.)
\<close>

datatype val = IntVal int | SymVal string

text \<open>
  The three shapes of object that occur as outcome or condition of a term:
  a bare \<open>Symbol\<close>, a sympy equality \<open>Eq(lhs, rhs)\<close> whose left side is a symbol, and
  \<open>Do(var)\<close> / \<open>Do(var, value)\<close>.
\<close>

datatype sym_expr = Symbol string | Eq string val | Do string "val option"

text \<open>Python's \<open>str\<close> on a non-negative and on an arbitrary integer.\<close>

fun str_nat :: "nat \<Rightarrow> string" where
  "str_nat n =
     (if n < 10 then [''0123456789'' ! n]
      else str_nat (n div 10) @ [''0123456789'' ! (n mod 10)])"

declare str_nat.simps [simp del]

definition str_int :: "int \<Rightarrow> string" where
  "str_int i = (if i < 0 then ''-'' @ str_nat (nat (- i)) else str_nat (nat i))"

fun str_val :: "val \<Rightarrow> string" where
  "str_val (IntVal i) = str_int i"
| "str_val (SymVal s) = s"

text \<open>
  \<open>str\<close> of a sympy object: a symbol prints as its name, an equality prints in sympy's
  own form \<open>Eq(lhs, rhs)\<close>, and \<open>Do.__str__\<close> prints \<open>do(X)\<close> or \<open>do(X=v)\<close>.
\<close>

fun str_expr :: "sym_expr \<Rightarrow> string" where
  "str_expr (Symbol s) = s"
| "str_expr (Eq l r) = ''Eq('' @ l @ '', '' @ str_val r @ '')''"
| "str_expr (Do v None) = ''do('' @ v @ '')''"
| "str_expr (Do v (Some x)) = ''do('' @ v @ ''='' @ str_val x @ '')''"

fun is_Do :: "sym_expr \<Rightarrow> bool" where
  "is_Do (Do v x) = True"
| "is_Do e = False"

fun is_Eq :: "sym_expr \<Rightarrow> bool" where
  "is_Eq (Eq l r) = True"
| "is_Eq e = False"

fun is_Symbol :: "sym_expr \<Rightarrow> bool" where
  "is_Symbol (Symbol s) = True"
| "is_Symbol e = False"

text \<open>The variable a condition is about, and the rendering of the value it carries.\<close>

fun expr_var :: "sym_expr \<Rightarrow> string" where
  "expr_var (Symbol s) = s"
| "expr_var (Eq l r) = l"
| "expr_var (Do v x) = v"

fun expr_val :: "sym_expr \<Rightarrow> val option" where
  "expr_val (Symbol s) = None"
| "expr_val (Eq l r) = Some r"
| "expr_val (Do v x) = x"

text \<open>
  \<open>_condition_sort_key\<close>: a triple compared as Python compares tuples, that is
  lexicographically, strings by code point.
\<close>

fun condition_sort_key :: "sym_expr \<Rightarrow> nat \<times> string \<times> string" where
  "condition_sort_key (Do v x) = (0, v, (case x of None \<Rightarrow> '''' | Some y \<Rightarrow> str_val y))"
| "condition_sort_key (Eq l r) = (1, l, str_val r)"
| "condition_sort_key (Symbol s) = (2, s, '''')"

text \<open>
  A term \<open>P(outcome | conditions)\<close>. \<open>CP\<close> is the stored object; the class constructor
  \<open>CausalProbability.__new__\<close> sorts what it is given with Python's stable \<open>sorted\<close>.
  Equality of terms (\<open>__eq__\<close>) compares outcome and condition tuple.
\<close>

datatype causal_probability = CP (outcome: sym_expr) (conditions: "sym_expr list")

definition CausalProbability :: "sym_expr \<Rightarrow> sym_expr list \<Rightarrow> causal_probability" where
  "CausalProbability y cs = CP y (sort_key condition_sort_key cs)"

text \<open>\<open>sep.join(xs)\<close>.\<close>

fun join :: "string \<Rightarrow> string list \<Rightarrow> string" where
  "join sep [] = ''''"
| "join sep [x] = x"
| "join sep (x # y # ys) = x @ sep @ join sep (y # ys)"

text \<open>\<open>_format_outcome\<close>, \<open>_format_condition\<close> and \<open>__str__\<close> of a term.\<close>

fun format_outcome :: "sym_expr \<Rightarrow> string" where
  "format_outcome (Eq l r) = l @ ''='' @ str_val r"
| "format_outcome e = str_expr e"

fun format_condition :: "sym_expr \<Rightarrow> string" where
  "format_condition (Do v x) = str_expr (Do v x)"
| "format_condition (Eq l r) = l @ ''='' @ str_val r"
| "format_condition e = str_expr e"

definition str_cp :: "causal_probability \<Rightarrow> string" where
  "str_cp t =
     (if conditions t = [] then ''P('' @ format_outcome (outcome t) @ '')''
      else ''P('' @ format_outcome (outcome t) @ '' | ''
             @ join '', '' (map format_condition (conditions t)) @ '')'')"

section \<open>Graphs and the d-separation oracle (causal_equiv.py)\<close>

text \<open>
  The exceptions that matter: the \<open>TypeError\<close> raised by the proof finder, and the two
  networkx exceptions \<open>NetworkXError\<close> and \<open>NodeNotFound\<close> (the latter is not a subclass
  of the former; both derive from \<open>NetworkXException\<close>).
\<close>

datatype py_error = TypeError string | NetworkXError | NodeNotFound

text \<open>
  A networkx graph: a set of nodes and a set of edges between them. An undirected
  \<open>nx.Graph\<close> is kept as a graph whose edge set holds every edge in both directions.
\<close>

record digraph =
  nodes :: "string set"
  edges :: "(string \<times> string) set"

text \<open>
  \<open>CausalExpr._build_graph\<close>: the causal structure is a dictionary from a parent to the
  list of its children (keys and children are rendered with \<open>str\<close>; here they are names
  already). No structure, or an empty one, gives the empty graph. Cycles are only logged.
\<close>

definition build_graph :: "(string \<times> string list) list \<Rightarrow> digraph" where
  "build_graph cs =
     \<lparr> nodes = set (map fst cs) \<union> \<Union> (set (map (\<lambda>(p, chs). set chs) cs)),
       edges = set (concat (map (\<lambda>(p, chs). map (Pair p) chs) cs)) \<rparr>"

text \<open>\<open>nx.ancestors\<close>, \<open>G.predecessors\<close>, \<open>G.subgraph\<close> for nodes that are in the graph.\<close>

definition ancestors :: "digraph \<Rightarrow> string \<Rightarrow> string set" where
  "ancestors g n = ((edges g)\<^sup>+)\<inverse> `` {n} - {n}"

definition predecessors :: "digraph \<Rightarrow> string \<Rightarrow> string set" where
  "predecessors g c = (edges g)\<inverse> `` {c}"

definition subgraph :: "digraph \<Rightarrow> string set \<Rightarrow> digraph" where
  "subgraph g A = \<lparr> nodes = nodes g \<inter> A, edges = edges g \<inter> (A \<times> A) \<rparr>"

text \<open>
  Lines 30 to 38 of \<open>is_d_separated\<close>: the undirected skeleton plus an edge between any two
  distinct parents of a common child.
\<close>

definition moralize :: "digraph \<Rightarrow> digraph" where
  "moralize g =
     \<lparr> nodes = nodes g,
       edges = (edges g \<union> (edges g)\<inverse>)
               \<union> (\<Union>c \<in> nodes g. Set.filter (\<lambda>(p, q). p \<noteq> q) (predecessors g c \<times> predecessors g c)) \<rparr>"

definition remove_nodes_from :: "digraph \<Rightarrow> string set \<Rightarrow> digraph" where
  "remove_nodes_from g Z =
     \<lparr> nodes = nodes g - Z, edges = Set.filter (\<lambda>(u, v). u \<notin> Z \<and> v \<notin> Z) (edges g) \<rparr>"

text \<open>
  \<open>nx.has_path\<close>: raises \<open>NodeNotFound\<close> when an endpoint is missing, otherwise tells
  whether a path (possibly of length zero) leads from the source to the target.
\<close>

definition has_path :: "digraph \<Rightarrow> string \<Rightarrow> string \<Rightarrow> py_error + bool" where
  "has_path g s t =
     (if s \<notin> nodes g \<or> t \<notin> nodes g then Inl NodeNotFound
      else Inr (s = t \<or> (s, t) \<in> (edges g)\<^sup>+))"

text \<open>
  \<open>is_d_separated\<close>. The loop over \<open>nodes_of_interest\<close> calls \<open>nx.ancestors\<close>, which raises
  \<open>NetworkXError\<close> for a node that is not in the graph; the two endpoints are in the graph
  at that point, so this happens exactly when the conditioning set has such a member.
\<close>

definition is_d_separated :: "digraph \<Rightarrow> string \<Rightarrow> string \<Rightarrow> string set \<Rightarrow> py_error + bool" where
  "is_d_separated graph start endv Z =
     (if start = endv then Inr False
      else if start \<notin> nodes graph \<or> endv \<notin> nodes graph then Inr True
      else
        let nodes_of_interest = {start, endv} \<union> Z in
        if \<not> nodes_of_interest \<subseteq> nodes graph then Inl NetworkXError
        else
          let anc = nodes_of_interest \<union> (\<Union>n \<in> nodes_of_interest. ancestors graph n);
              G_anc = subgraph graph anc;
              moral = remove_nodes_from (moralize G_anc) Z
          in if start \<notin> nodes moral \<or> endv \<notin> nodes moral then Inr True
             else (case has_path moral start endv of
                     Inl e \<Rightarrow> Inl e
                   | Inr b \<Rightarrow> Inr (\<not> b)))"

text \<open>
  \<open>CausalExpr._custom_d_separation\<close>: the query is made on the \<open>str\<close> renderings of its
  arguments.
\<close>

definition custom_d_separation ::
  "sym_expr \<Rightarrow> string \<Rightarrow> string list \<Rightarrow> digraph \<Rightarrow> py_error + bool" where
  "custom_d_separation X Y Z graph = is_d_separated graph (str_expr X) Y (set Z)"

text \<open>
  The graph mutators, written inline in the enumerators: delete every edge into a node
  (\<open>_create_intervention_graph\<close> does so for each intervention variable in turn) and
  delete every edge out of a node.
\<close>

definition remove_incoming :: "digraph \<Rightarrow> string \<Rightarrow> digraph" where
  "remove_incoming g x = g\<lparr> edges := Set.filter (\<lambda>(u, v). v \<noteq> x) (edges g) \<rparr>"

definition remove_outgoing :: "digraph \<Rightarrow> string \<Rightarrow> digraph" where
  "remove_outgoing g x = g\<lparr> edges := Set.filter (\<lambda>(u, v). u \<noteq> x) (edges g) \<rparr>"

definition create_intervention_graph :: "digraph \<Rightarrow> string list \<Rightarrow> digraph" where
  "create_intervention_graph g do_vars = foldl remove_incoming g do_vars"

section \<open>Rule enumerators (causal_equiv.py)\<close>

text \<open>
  Each enumerator collects its candidates in \<open>outs\<close> and remembers the renderings it has
  already emitted in \<open>seen\<close>; \<open>emit\<close> is the shared tail of the three loop bodies.
\<close>

type_synonym emitted = "causal_probability list \<times> string set"

definition emit :: "causal_probability \<Rightarrow> emitted \<Rightarrow> emitted" where
  "emit cand acc =
     (let s = str_cp cand in
      if s \<in> snd acc then acc else (fst acc @ [cand], insert s (snd acc)))"

text \<open>
  The variables of the interventions and of the observations, in the order of the
  conditions (an observed equality is normalised to its left-hand side).
\<close>

definition do_vars_of :: "sym_expr list \<Rightarrow> string list" where
  "do_vars_of cs = map expr_var (filter is_Do cs)"

definition obs_vars_of :: "sym_expr list \<Rightarrow> string list" where
  "obs_vars_of cs = map expr_var (filter (\<lambda>c. \<not> is_Do c) cs)"

definition do_indices_of :: "sym_expr list \<Rightarrow> nat list" where
  "do_indices_of cs = filter (\<lambda>i. is_Do (cs ! i)) [0..<length cs]"

text \<open>
  Rule 1. A condition is dropped together with \<open>W\<close> when it is the symbol \<open>W\<close> itself or
  an equality whose left-hand side is \<open>W\<close>. Whatever the oracle raises is caught and the
  candidate skipped.
\<close>

definition drops :: "string \<Rightarrow> sym_expr \<Rightarrow> bool" where
  "drops W c = (c = Symbol W \<or> (is_Eq c \<and> expr_var c = W))"

definition rule_1_step ::
  "sym_expr \<Rightarrow> sym_expr list \<Rightarrow> string list \<Rightarrow> string list \<Rightarrow> digraph \<Rightarrow> emitted \<Rightarrow> string \<Rightarrow> emitted" where
  "rule_1_step Y conds do_vars obs_vars g_x acc W =
     (let other_obs = filter (\<lambda>v. v \<noteq> W) obs_vars;
          conditioning_set = do_vars @ other_obs
      in case custom_d_separation Y W conditioning_set g_x of
           Inr True \<Rightarrow> emit (CausalProbability Y (filter (\<lambda>c. \<not> drops W c) conds)) acc
         | _ \<Rightarrow> acc)"

definition apply_rule_1_all :: "digraph \<Rightarrow> causal_probability \<Rightarrow> causal_probability list" where
  "apply_rule_1_all graph expression =
     (let Y = outcome expression; conds = conditions expression in
      if conds = [] then []
      else
        let do_vars = do_vars_of conds; obs_vars = obs_vars_of conds in
        if obs_vars = [] then []
        else
          let g_x = create_intervention_graph graph do_vars
          in fst (foldl (rule_1_step Y conds do_vars obs_vars g_x) ([], {}) obs_vars))"

text \<open>
  Rule 2. The intervention at position \<open>idx\<close> is overwritten by the bare variable
  \<open>Z = conditions[idx].args[0]\<close>.
\<close>

definition rule_2_step ::
  "digraph \<Rightarrow> sym_expr \<Rightarrow> sym_expr list \<Rightarrow> nat list \<Rightarrow> string list \<Rightarrow> emitted \<Rightarrow> nat \<Rightarrow> emitted" where
  "rule_2_step graph Y conds do_indices obs_vars acc idx =
     (let Z = expr_var (conds ! idx);
          other_do_vars = map (\<lambda>j. expr_var (conds ! j)) (filter (\<lambda>j. j \<noteq> idx) do_indices);
          g_xz = remove_outgoing (foldl remove_incoming graph other_do_vars) Z;
          conditioning_set = other_do_vars @ obs_vars
      in case custom_d_separation Y Z conditioning_set g_xz of
           Inr True \<Rightarrow> emit (CausalProbability Y (conds[idx := Symbol Z])) acc
         | _ \<Rightarrow> acc)"

definition apply_rule_2_all :: "digraph \<Rightarrow> causal_probability \<Rightarrow> causal_probability list" where
  "apply_rule_2_all graph expression =
     (let Y = outcome expression; conds = conditions expression;
          do_indices = do_indices_of conds; obs_vars = obs_vars_of conds
      in if do_indices = [] then []
         else fst (foldl (rule_2_step graph Y conds do_indices obs_vars) ([], {}) do_indices))"

text \<open>
  Rule 3. The ancestor test calls \<open>nx.has_path\<close> outside the enumerator's own
  \<open>try\<close> around the oracle, guarded only by \<open>except nx.NetworkXError\<close>: a \<open>NodeNotFound\<close>
  leaves the enumerator, so its result is an error or a list.
\<close>

fun is_ancestor_of_obs :: "digraph \<Rightarrow> string \<Rightarrow> string list \<Rightarrow> py_error + bool" where
  "is_ancestor_of_obs g_bar Z [] = Inr False"
| "is_ancestor_of_obs g_bar Z (W # Ws) =
     (case has_path g_bar Z W of
        Inr True \<Rightarrow> Inr True
      | Inr False \<Rightarrow> is_ancestor_of_obs g_bar Z Ws
      | Inl NetworkXError \<Rightarrow> is_ancestor_of_obs g_bar Z Ws
      | Inl e \<Rightarrow> Inl e)"

definition rule_3_step ::
  "digraph \<Rightarrow> sym_expr \<Rightarrow> sym_expr list \<Rightarrow> nat list \<Rightarrow> string list \<Rightarrow> emitted \<Rightarrow> nat
     \<Rightarrow> py_error + emitted" where
  "rule_3_step graph Y conds do_indices obs_vars acc z_idx =
     (let Z = expr_var (conds ! z_idx);
          kept_do_vars = map (\<lambda>i. expr_var (conds ! i)) (filter (\<lambda>i. i \<noteq> z_idx) do_indices);
          g_bar = foldl remove_incoming graph kept_do_vars
      in case is_ancestor_of_obs g_bar Z obs_vars of
           Inl e \<Rightarrow> Inl e
         | Inr is_anc \<Rightarrow>
             let g_test = (if \<not> is_anc then remove_incoming g_bar Z else g_bar);
                 conditioning_set = kept_do_vars @ obs_vars
             in Inr (case custom_d_separation Y Z conditioning_set g_test of
                       Inr True \<Rightarrow>
                         emit (CausalProbability Y (take z_idx conds @ drop (Suc z_idx) conds)) acc
                     | _ \<Rightarrow> acc))"

fun rule_3_loop ::
  "digraph \<Rightarrow> sym_expr \<Rightarrow> sym_expr list \<Rightarrow> nat list \<Rightarrow> string list \<Rightarrow> emitted \<Rightarrow> nat list
     \<Rightarrow> py_error + emitted" where
  "rule_3_loop graph Y conds do_indices obs_vars acc [] = Inr acc"
| "rule_3_loop graph Y conds do_indices obs_vars acc (z_idx # rest) =
     (case rule_3_step graph Y conds do_indices obs_vars acc z_idx of
        Inl e \<Rightarrow> Inl e
      | Inr acc' \<Rightarrow> rule_3_loop graph Y conds do_indices obs_vars acc' rest)"

definition apply_rule_3_all ::
  "digraph \<Rightarrow> causal_probability \<Rightarrow> py_error + causal_probability list" where
  "apply_rule_3_all graph expression =
     (let Y = outcome expression; conds = conditions expression;
          do_indices = do_indices_of conds; obs_vars = obs_vars_of conds
      in if length do_indices = 0 then Inr []
         else map_sum id fst (rule_3_loop graph Y conds do_indices obs_vars ([], {}) do_indices))"

section \<open>Proof search (find_proof.py)\<close>

text \<open>
  A \<open>CausalProofFinder\<close> holds the causal structure (after validation, see below) and the
  depth bound.
\<close>

record finder =
  causal_structure :: "(string \<times> string list) list"
  max_depth :: int

text \<open>
  \<open>_validate_causal_structure\<close>. \<open>nx.simple_cycles\<close> is a library routine; it is a
  parameter here. The graph \<open>G\<close> is filled parent by parent, so its nodes and edges are
  listed in the order of their first occurrence; the rebuilt structure lists, for each
  node that still has children, those children in that order. An empty cycle would make
  \<open>cycle[-1]\<close> raise, which the \<open>except\<close> clause answers by leaving the structure as it was.
\<close>

definition first_occurrences :: "'a list \<Rightarrow> 'a list" where
  "first_occurrences xs = rev (remdups (rev xs))"

definition is_directed_acyclic_graph :: "digraph \<Rightarrow> bool" where
  "is_directed_acyclic_graph g = (\<forall>v \<in> nodes g. (v, v) \<notin> (edges g)\<^sup>+)"

definition validate_causal_structure ::
  "(digraph \<Rightarrow> string list list) \<Rightarrow> (string \<times> string list) list \<Rightarrow> (string \<times> string list) list" where
  "validate_causal_structure simple_cycles cs =
     (if cs = [] then cs
      else
        let G = build_graph cs in
        if is_directed_acyclic_graph G then cs
        else
          let cycles = simple_cycles G in
          if [] \<in> set cycles then cs
          else
            let removed = set (map (\<lambda>cycle. (last cycle, hd cycle)) cycles);
                G_nodes = first_occurrences (concat (map (\<lambda>(parent, children). parent # children) cs));
                G_fixed_edges =
                  filter (\<lambda>e. e \<notin> removed)
                    (first_occurrences (concat (map (\<lambda>(parent, children). map (Pair parent) children) cs)))
            in filter (\<lambda>(node, children). children \<noteq> [])
                 (map (\<lambda>node. (node, map snd (filter (\<lambda>(u, v). u = node) G_fixed_edges))) G_nodes))"

definition CausalProofFinder ::
  "(digraph \<Rightarrow> string list list) \<Rightarrow> (string \<times> string list) list \<Rightarrow> int \<Rightarrow> finder" where
  "CausalProofFinder simple_cycles cs d =
     \<lparr> causal_structure = validate_causal_structure simple_cycles cs, max_depth = d \<rparr>"

text \<open>\<open>_are_expressions_equivalent\<close> and \<open>_state_key\<close> on terms.\<close>

definition are_expressions_equivalent :: "causal_probability \<Rightarrow> causal_probability \<Rightarrow> bool" where
  "are_expressions_equivalent expr1 expr2 =
     (outcome expr1 = outcome expr2
      \<and> set (filter is_Do (conditions expr1)) = set (filter is_Do (conditions expr2))
      \<and> set (filter (\<lambda>c. \<not> is_Do c) (conditions expr1))
          = set (filter (\<lambda>c. \<not> is_Do c) (conditions expr2)))"

definition state_key :: "causal_probability \<Rightarrow> string" where
  "state_key expr =
     ''Y='' @ str_expr (outcome expr)
     @ ''|DO='' @ join '','' (sort (map str_expr (filter is_Do (conditions expr))))
     @ ''|OBS='' @ join '','' (sort (map str_expr (filter (\<lambda>c. \<not> is_Do c) (conditions expr))))"

type_synonym step = "string \<times> causal_probability"

text \<open>\<open>_do_calculus_successors\<close>; an enumerator that raises contributes nothing.\<close>

fun uniq :: "step list \<Rightarrow> string set \<Rightarrow> step list" where
  "uniq [] seen = []"
| "uniq ((label, out) # rest) seen =
     (let k = state_key out in
      if k \<in> seen then uniq rest seen else (label, out) # uniq rest (insert k seen))"

definition do_calculus_successors :: "finder \<Rightarrow> causal_probability \<Rightarrow> step list" where
  "do_calculus_successors f expr =
     (let graph = build_graph (causal_structure f);
          keep = filter (\<lambda>out. \<not> are_expressions_equivalent out expr);
          successors =
            map (Pair ''Do-calculus Rule 1'') (keep (apply_rule_1_all graph expr))
            @ map (Pair ''Do-calculus Rule 2'') (keep (apply_rule_2_all graph expr))
            @ map (Pair ''Do-calculus Rule 3'')
                (keep (case apply_rule_3_all graph expr of Inl e \<Rightarrow> [] | Inr outs \<Rightarrow> outs))
      in uniq successors {})"

text \<open>
  \<open>_find_proof_single\<close>. \<open>expand\<close> is the inner \<open>for\<close> loop over the successors of the
  dequeued term: it either returns a proof or hands back the visited set and the queue.
  \<open>bfs\<close> is the \<open>while queue\<close> loop; \<open>None\<close> is Python's \<open>None\<close>.
\<close>

type_synonym frontier = "(causal_probability \<times> step list) list"

fun expand ::
  "causal_probability \<Rightarrow> step list \<Rightarrow> step list \<Rightarrow> string set \<Rightarrow> frontier
     \<Rightarrow> step list + (string set \<times> frontier)" where
  "expand target_expr path [] visited queue = Inr (visited, queue)"
| "expand target_expr path ((rule_label, nxt) # rest) visited queue =
     (let k = state_key nxt in
      if k \<in> visited then expand target_expr path rest visited queue
      else
        let new_path = path @ [(rule_label, nxt)] in
        if are_expressions_equivalent nxt target_expr \<or> k = state_key target_expr
        then Inl new_path
        else expand target_expr path rest (insert k visited) (queue @ [(nxt, new_path)]))"

definition weight :: "finder \<Rightarrow> causal_probability \<times> step list \<Rightarrow> nat" where
  "weight f e = nat (max_depth f - int (length (snd e)))"

lemma expand_queue:
  "expand target path succs visited queue = Inr (visited', queue') \<Longrightarrow>
   \<exists>new. queue' = queue @ new \<and> (\<forall>e \<in> set new. length (snd e) = Suc (length path))"
proof (induction succs arbitrary: visited queue)
  case Nil
  then show ?case by simp
next
  case (Cons s succs)
  obtain l nxt where s: "s = (l, nxt)" by (cases s)
  show ?case
  proof (cases "state_key nxt \<in> visited")
    case True
    with Cons s show ?thesis by simp
  next
    case False
    with Cons.prems s have
      e: "expand target path succs (insert (state_key nxt) visited) (queue @ [(nxt, path @ [(l, nxt)])])
          = Inr (visited', queue')"
      by (simp add: Let_def split: if_splits)
    from Cons.IH[OF e] obtain new where
      "queue' = (queue @ [(nxt, path @ [(l, nxt)])]) @ new"
      "\<forall>e \<in> set new. length (snd e) = Suc (length path)" by blast
    then show ?thesis
      by (intro exI[of _ "(nxt, path @ [(l, nxt)]) # new"]) simp
  qed
qed

function bfs :: "finder \<Rightarrow> causal_probability \<Rightarrow> frontier \<Rightarrow> string set \<Rightarrow> step list option" where
  "bfs f target_expr [] visited = None"
| "bfs f target_expr ((cur, path) # queue) visited =
     (if int (length path) \<ge> max_depth f then bfs f target_expr queue visited
      else if are_expressions_equivalent cur target_expr \<or> state_key cur = state_key target_expr
      then Some path
      else (case expand target_expr path (do_calculus_successors f cur) visited queue of
              Inl new_path \<Rightarrow> Some new_path
            | Inr (visited', queue') \<Rightarrow> bfs f target_expr queue' visited'))"
  by pat_completeness auto
termination
proof (relation "inv_image (mult less_than)
                   (\<lambda>(f, target_expr, queue, visited). mset (map (weight f) queue))")
  show "wf (inv_image (mult less_than)
              (\<lambda>(f, target_expr, queue, visited). mset (map (weight f) queue)))"
    by (simp add: wf_mult)
next
  fix f :: finder and target_expr cur :: causal_probability and path :: "step list"
    and queue :: frontier and visited :: "string set"
  have "(mset (map (weight f) queue) + {#},
         mset (map (weight f) queue) + {#weight f (cur, path)#}) \<in> mult less_than"
    by (rule one_step_implies_mult) simp_all
  then show "((f, target_expr, queue, visited), (f, target_expr, (cur, path) # queue, visited))
       \<in> inv_image (mult less_than)
           (\<lambda>(f, target_expr, queue, visited). mset (map (weight f) queue))"
    by simp
next
  fix f :: finder and target_expr cur :: causal_probability and path :: "step list"
    and queue queue' :: frontier and visited visited' :: "string set" and x2
  assume d: "\<not> max_depth f \<le> int (length path)"
    and e: "expand target_expr path (do_calculus_successors f cur) visited queue = Inr x2"
    and x: "(visited', queue') = x2"
  from e x have
    "expand target_expr path (do_calculus_successors f cur) visited queue = Inr (visited', queue')"
    by simp
  from expand_queue[OF this] obtain new where
    q: "queue' = queue @ new" and n: "\<forall>e \<in> set new. length (snd e) = Suc (length path)"
    by blast
  have "(mset (map (weight f) queue) + mset (map (weight f) new),
         mset (map (weight f) queue) + {#weight f (cur, path)#}) \<in> mult less_than"
  proof (rule one_step_implies_mult)
    show "{#weight f (cur, path)#} \<noteq> {#}" by simp
    show "\<forall>k\<in>set_mset (mset (map (weight f) new)).
            \<exists>j\<in>set_mset {#weight f (cur, path)#}. (k, j) \<in> less_than"
      using n d by (auto simp: weight_def)
  qed
  then show "((f, target_expr, queue', visited'), (f, target_expr, (cur, path) # queue, visited))
       \<in> inv_image (mult less_than)
           (\<lambda>(f, target_expr, queue, visited). mset (map (weight f) queue))"
    using q by (simp add: add.commute)
qed

definition find_proof_single ::
  "finder \<Rightarrow> causal_probability \<Rightarrow> causal_probability \<Rightarrow> step list option" where
  "find_proof_single f start_expr target_expr =
     (if are_expressions_equivalent start_expr target_expr then Some []
      else bfs f target_expr [(start_expr, [])] {state_key start_expr})"

text \<open>
  The expressions \<open>find_proof\<close> may be handed: a term, or sympy arithmetic over terms,
  numbers and plain symbols (a sum \<open>Add\<close>, a product \<open>Mul\<close>, the parser's \<open>Mult\<close>).

  \<open>sp.simplify\<close> is a library routine; it is a parameter here, and nothing is assumed of it.
  The three sympy methods \<open>_as_subtraction_pair\<close> applies to its result are these.
  \<open>isinstance(expr, sp.Add)\<close> is the test for the constructor \<open>Add\<close>, and
  \<open>as_ordered_terms\<close> is the list of the summands (the order does not matter to the pair
  returned). \<open>as_coeff_Mul\<close> splits a summand into its numeric coefficient and the rest:
  a number is its own coefficient, with rest 1; sympy keeps the numeric factors of a
  product folded into one leading number, so the coefficient of a product is the product
  of all the numbers among its factors (\<open>(-1) * 3\<close> has coefficient \<open>-3\<close>) and the rest is
  the product of the other factors; anything else has coefficient 1.
\<close>

datatype expr =
  Prob causal_probability | Number int | Sym string
  | Add "expr list" | Mul "expr list" | Mult "expr list"

fun coeff_factors :: "expr \<Rightarrow> int \<times> expr list" where
  "coeff_factors (Number c) = (c, [])"
| "coeff_factors (Mul fs) =
     (prod_list (map (\<lambda>x. fst (coeff_factors x)) fs), concat (map (\<lambda>x. snd (coeff_factors x)) fs))"
| "coeff_factors t = (1, [t])"

definition as_coeff_Mul :: "expr \<Rightarrow> int \<times> expr" where
  "as_coeff_Mul t =
     (case t of
        Number c \<Rightarrow> (c, Number 1)
      | Mul fs \<Rightarrow>
          (case coeff_factors t of (c, rest) \<Rightarrow>
             (c, (case rest of [] \<Rightarrow> Number 1 | [r] \<Rightarrow> r | _ \<Rightarrow> Mul rest)))
      | _ \<Rightarrow> (1, t))"

fun split_terms :: "expr list \<Rightarrow> expr list \<Rightarrow> expr list \<Rightarrow> (expr list \<times> expr list) option" where
  "split_terms [] pos neg = Some (pos, neg)"
| "split_terms (t # ts) pos neg =
     (case as_coeff_Mul t of (coeff, rest) \<Rightarrow>
        if coeff = 1 then split_terms ts (pos @ [rest]) neg
        else if coeff = - 1 then split_terms ts pos (neg @ [rest])
        else None)"

definition as_subtraction_pair :: "(expr \<Rightarrow> expr) \<Rightarrow> expr \<Rightarrow> (expr \<times> expr) option" where
  "as_subtraction_pair simplify e =
     (case simplify e of
        Add ts \<Rightarrow> (case split_terms ts [] [] of Some ([a], [b]) \<Rightarrow> Some (a, b) | _ \<Rightarrow> None)
      | _ \<Rightarrow> None)"

text \<open>\<open>isinstance(x, CausalProbability)\<close>, with the term when it holds.\<close>

fun as_term :: "expr \<Rightarrow> causal_probability option" where
  "as_term (Prob t) = Some t"
| "as_term e = None"

text \<open>What \<open>find_proof\<close> returns: a list of steps, or the pair of the two ATE proofs.\<close>

datatype proof_result = Steps "step list" | ATE "step list" "step list"

definition find_proof ::
  "(expr \<Rightarrow> expr) \<Rightarrow> finder \<Rightarrow> expr \<Rightarrow> expr \<Rightarrow> py_error + proof_result option" where
  "find_proof simplify f start_expr target_expr =
     (case (as_term start_expr, as_term target_expr) of
        (Some a, Some b) \<Rightarrow> Inr (map_option Steps (find_proof_single f a b))
      | _ \<Rightarrow>
          (case (as_subtraction_pair simplify start_expr, as_subtraction_pair simplify target_expr) of
             (Some (A1, B1), Some (A2, B2)) \<Rightarrow>
               (case (as_term A1, as_term B1, as_term A2, as_term B2) of
                  (Some a1, Some b1, Some a2, Some b2) \<Rightarrow>
                    (case find_proof_single f a1 a2 of
                       None \<Rightarrow> Inr None
                     | Some p_left \<Rightarrow>
                         (case find_proof_single f b1 b2 of
                            None \<Rightarrow> Inr None
                          | Some p_right \<Rightarrow> Inr (Some (ATE p_left p_right))))
                | _ \<Rightarrow> Inl (TypeError ''ATE terms must be CausalProbability instances''))
           | _ \<Rightarrow>
               Inl (TypeError
                 ''Unsupported expression type: expected CausalProbability or A-B of CausalProbability'')))"

text \<open>The name of the class of an exception.\<close>

fun error_class :: "py_error \<Rightarrow> string" where
  "error_class (TypeError msg) = ''TypeError''"
| "error_class NetworkXError = ''NetworkXError''"
| "error_class NodeNotFound = ''NodeNotFound''"

text \<open>The rendering of the value a condition carries, empty when it carries none.\<close>

definition value_str :: "sym_expr \<Rightarrow> string" where
  "value_str e = (case expr_val e of None \<Rightarrow> '''' | Some v \<Rightarrow> str_val v)"

section \<open>The term constructor\<close>

lemma key_le_cases:
  assumes "condition_sort_key a \<le> condition_sort_key b"
  shows "(is_Do b \<longrightarrow> is_Do a) \<and> (is_Symbol a \<longrightarrow> is_Symbol b)
       \<and> (is_Do a = is_Do b \<and> is_Eq a = is_Eq b \<longrightarrow>
            expr_var a < expr_var b \<or> (expr_var a = expr_var b \<and> value_str a \<le> value_str b))"
  using assms
  by (cases a; cases b) (auto simp: less_eq_prod_def less_prod_def value_str_def split: option.splits)

lemma sorted_conditions:
  "sorted (map condition_sort_key (conditions (CausalProbability y cs)))"
  by (simp add: CausalProbability_def)

text \<open>
  Claim C5, as the code has it. The conditions of a constructed term come in three
  groups, in this order: interventions, observations that carry a value (equalities),
  bare observations. Within one group they are ordered by variable name and then by the
  rendering of the value. So at positions \<open>i < j\<close>: if the later condition is an
  intervention so is the earlier; if the earlier is a bare observation so is the later;
  and two conditions of the same group are ordered by (variable, value).
\<close>

theorem canonical_order_three_groups:
  assumes "i < j" and "j < length (conditions (CausalProbability y cs))"
  shows "(is_Do (conditions (CausalProbability y cs) ! j)
            \<longrightarrow> is_Do (conditions (CausalProbability y cs) ! i))
       \<and> (is_Symbol (conditions (CausalProbability y cs) ! i)
            \<longrightarrow> is_Symbol (conditions (CausalProbability y cs) ! j))
       \<and> (is_Do (conditions (CausalProbability y cs) ! i)
              = is_Do (conditions (CausalProbability y cs) ! j)
          \<and> is_Eq (conditions (CausalProbability y cs) ! i)
              = is_Eq (conditions (CausalProbability y cs) ! j) \<longrightarrow>
            expr_var (conditions (CausalProbability y cs) ! i)
              < expr_var (conditions (CausalProbability y cs) ! j)
            \<or> (expr_var (conditions (CausalProbability y cs) ! i)
                  = expr_var (conditions (CausalProbability y cs) ! j)
               \<and> value_str (conditions (CausalProbability y cs) ! i)
                  \<le> value_str (conditions (CausalProbability y cs) ! j)))"
proof -
  let ?c = "conditions (CausalProbability y cs)"
  have "sorted (map condition_sort_key ?c)" by (rule sorted_conditions)
  then have "map condition_sort_key ?c ! i \<le> map condition_sort_key ?c ! j"
    using assms by (intro sorted_nth_mono) simp_all
  then have "condition_sort_key (?c ! i) \<le> condition_sort_key (?c ! j)"
    using assms by simp
  then show ?thesis by (rule key_le_cases)
qed

text \<open>
  The order at a concrete term: of \<open>A\<close>, \<open>Z=1\<close>, \<open>do(X)\<close> the equality stands at
  position 1 and the bare observation at position 2.
\<close>

theorem canonical_order_three_groups_witness:
  "is_Eq (conditions (CausalProbability (Symbol ''Y'')
            [Symbol ''A'', Eq ''Z'' (IntVal 1), Do ''X'' None]) ! 1)
   \<and> is_Symbol (conditions (CausalProbability (Symbol ''Y'')
            [Symbol ''A'', Eq ''Z'' (IntVal 1), Do ''X'' None]) ! 2)"
  using canonical_order_three_groups[of 1 2 "Symbol ''Y''"
      "[Symbol ''A'', Eq ''Z'' (IntVal 1), Do ''X'' None]"]
  by (simp add: CausalProbability_def)

text \<open>
  Claim C5 as written fails: the bare observation \<open>A\<close> does not precede \<open>Z=1\<close>; the
  equality comes first although \<open>A < Z\<close>.
\<close>

theorem bare_observation_after_valued_counterexample:
  "conditions (CausalProbability (Symbol ''Y'') [Symbol ''A'', Eq ''Z'' (IntVal 1)])
     = [Eq ''Z'' (IntVal 1), Symbol ''A'']"
  by (simp add: CausalProbability_def)

text \<open>
  Claim C3, as the code has it. The constructor keeps every condition it is given,
  duplicates included: the conditions of the term are a rearrangement of the arguments,
  and the outcome is untouched. Duplicates are immaterial only to the structural
  equivalence of the proof search, which compares condition sets.
\<close>

theorem constructor_keeps_duplicates:
  "mset (conditions (CausalProbability y cs)) = mset cs
   \<and> outcome (CausalProbability y cs) = y
   \<and> are_expressions_equivalent (CausalProbability y cs) (CausalProbability y (remdups cs))"
  by (auto simp: CausalProbability_def are_expressions_equivalent_def)

theorem constructor_keeps_duplicates_witness:
  "mset (conditions (CausalProbability (Symbol ''Y'') [Symbol ''X'', Symbol ''X'']))
     = mset [Symbol ''X'', Symbol ''X'']"
  using constructor_keeps_duplicates[of "Symbol ''Y''" "[Symbol ''X'', Symbol ''X'']"]
  by simp

text \<open>
  Claim C3 as written fails: \<open>P(Y | X, X)\<close> is not the term built from the deduplicated
  conditions, and \<open>P(Y | X=0, X=1)\<close> keeps both of its conditions.
\<close>

theorem duplicates_not_coalesced_counterexample:
  "CausalProbability (Symbol ''Y'') [Symbol ''X'', Symbol ''X'']
     \<noteq> CausalProbability (Symbol ''Y'') (remdups [Symbol ''X'', Symbol ''X''])
   \<and> conditions (CausalProbability (Symbol ''Y'') [Eq ''X'' (IntVal 0), Eq ''X'' (IntVal 1)])
       = [Eq ''X'' (IntVal 0), Eq ''X'' (IntVal 1)]"
  by (simp add: CausalProbability_def str_int_def str_nat.simps)

section \<open>The d-separation oracle\<close>

lemma sym_trancl_iff:
  assumes "sym R"
  shows "(a, b) \<in> R\<^sup>+ \<longleftrightarrow> (b, a) \<in> R\<^sup>+"
proof -
  have "sym (R\<^sup>+)" using assms by (rule sym_trancl)
  then show ?thesis by (auto dest: symD)
qed

lemma sym_moral_edges: "sym (edges (remove_nodes_from (moralize g) Z))"
  by (auto simp: sym_def remove_nodes_from_def moralize_def)

lemma has_path_moral_sym:
  "has_path (remove_nodes_from (moralize g) Z) s t
     = has_path (remove_nodes_from (moralize g) Z) t s"
  using sym_trancl_iff[OF sym_moral_edges, of s t g Z]
  by (auto simp: has_path_def)

text \<open>
  Claim C9. The oracle gives the same answer (or raises the same exception) when its two
  endpoints are exchanged, for every graph, every pair of endpoints and every
  conditioning set.
\<close>

theorem is_d_separated_symmetric:
  "is_d_separated G s t Z = is_d_separated G t s Z"
proof -
  have i: "{s, t} \<union> Z = {t, s} \<union> Z" by auto
  show ?thesis
    unfolding is_d_separated_def i Let_def
    by (simp add: has_path_moral_sym[of _ _ s t] eq_commute[of s t] disj_commute)
qed

theorem is_d_separated_symmetric_witness:
  "is_d_separated (build_graph [(''X'', [''Z'']), (''Z'', [''Y''])]) ''X'' ''Y'' {}
     = is_d_separated (build_graph [(''X'', [''Z'']), (''Z'', [''Y''])]) ''Y'' ''X'' {}"
  using is_d_separated_symmetric[of "build_graph [(''X'', [''Z'']), (''Z'', [''Y''])]"
      "''X''" "''Y''" "{}"]
  by simp

text \<open>
  Claim C8. When the two endpoints differ and one of them is in the conditioning set, the
  oracle answers "separated" whenever it answers: it does so when an endpoint is not a
  vertex of the graph, or when every member of the conditioning set is a vertex. When both
  endpoints are vertices and some member of the conditioning set is not, \<open>nx.ancestors\<close>
  raises \<open>NetworkXError\<close> and the oracle answers nothing.
\<close>

theorem conditioned_endpoint_separated_or_raises:
  assumes "s \<noteq> t" and "s \<in> Z \<or> t \<in> Z"
  shows "is_d_separated G s t Z
         = (if s \<in> nodes G \<and> t \<in> nodes G \<and> \<not> Z \<subseteq> nodes G then Inl NetworkXError
            else Inr True)"
  using assms by (auto simp: is_d_separated_def Let_def remove_nodes_from_def)

theorem conditioned_endpoint_separated_or_raises_witness:
  "is_d_separated (build_graph [(''X'', [''Z'']), (''Z'', [''Y''])]) ''X'' ''Y'' {''Y''} = Inr True
   \<and> is_d_separated (build_graph [(''X'', [''Z'']), (''Z'', [''Y''])]) ''X'' ''Y'' {''X'', ''Z''}
       = Inr True
   \<and> is_d_separated (build_graph [(''X'', [''Z'']), (''Z'', [''Y''])]) ''X'' ''Y'' {''X'', ''Q''}
       = Inl NetworkXError"
  using
    conditioned_endpoint_separated_or_raises[of "''X''" "''Y''" "{''Y''}"
      "build_graph [(''X'', [''Z'']), (''Z'', [''Y''])]"]
    conditioned_endpoint_separated_or_raises[of "''X''" "''Y''" "{''X'', ''Z''}"
      "build_graph [(''X'', [''Z'']), (''Z'', [''Y''])]"]
    conditioned_endpoint_separated_or_raises[of "''X''" "''Y''" "{''X'', ''Q''}"
      "build_graph [(''X'', [''Z'']), (''Z'', [''Y''])]"]
  by (simp add: build_graph_def)

text \<open>
  Claim C8 as written fails: on the chain \<open>X \<rightarrow> Z \<rightarrow> Y\<close>, with the endpoint \<open>Y\<close> in the
  conditioning set \<open>{Y, Q}\<close> and \<open>Q\<close> not a vertex, the oracle raises instead of
  answering "separated".
\<close>

theorem conditioned_endpoint_counterexample:
  "''X'' \<noteq> ''Y'' \<and> ''Y'' \<in> {''Y'', ''Q''}
   \<and> is_d_separated (build_graph [(''X'', [''Z'']), (''Z'', [''Y''])]) ''X'' ''Y'' {''Y'', ''Q''}
       = Inl NetworkXError
   \<and> is_d_separated (build_graph [(''X'', [''Z'']), (''Z'', [''Y''])]) ''X'' ''Y'' {''Y'', ''Q''}
       \<noteq> Inr True"
  by (simp add: is_d_separated_def build_graph_def)

section \<open>The rule enumerators\<close>

text \<open>
  Claim C1 on the code: on the graph with the two isolated vertices \<open>Z\<close> and \<open>Y\<close>, the
  only Rule 2 successor of \<open>P(Y | do(Z=1))\<close> is \<open>P(Y | Z)\<close>: the intervention is replaced
  by the bare observation and its value 1 is lost.
\<close>

theorem rule_2_drops_value:
  "apply_rule_2_all (build_graph [(''Z'', []), (''Y'', [])])
     (CausalProbability (Symbol ''Y'') [Do ''Z'' (Some (IntVal 1))])
   = [CP (Symbol ''Y'') [Symbol ''Z'']]"
  by code_simp

definition derived_condition :: "sym_expr list \<Rightarrow> sym_expr \<Rightarrow> bool" where
  "derived_condition cs c' =
     (c' \<in> set cs \<or> c' \<in> (\<lambda>c. Symbol (expr_var c)) ` set (filter is_Do cs))"

definition term_vars :: "causal_probability \<Rightarrow> string set" where
  "term_vars t = insert (expr_var (outcome t)) (expr_var ` set (conditions t))"

definition introduces_nothing :: "causal_probability \<Rightarrow> causal_probability \<Rightarrow> bool" where
  "introduces_nothing T out =
     (outcome out = outcome T
      \<and> list_all (derived_condition (conditions T)) (conditions out)
      \<and> term_vars out \<subseteq> term_vars T)"

lemma derived_vars:
  "derived_condition cs c' \<Longrightarrow> expr_var c' \<in> expr_var ` set cs"
  by (auto simp: derived_condition_def)

lemma introduces_nothingI:
  assumes "\<And>c'. c' \<in> set cs' \<Longrightarrow> derived_condition (conditions T) c'"
  shows "introduces_nothing T (CausalProbability (outcome T) cs')"
  using assms derived_vars[of "conditions T"]
  by (auto simp: introduces_nothing_def CausalProbability_def list_all_iff term_vars_def)

lemma emit_subset: "set (fst (emit cand acc)) \<subseteq> insert cand (set (fst acc))"
  by (auto simp: emit_def Let_def)

lemma foldl_invariant:
  assumes "I a" and "\<And>acc x. x \<in> set xs \<Longrightarrow> I acc \<Longrightarrow> I (f acc x)"
  shows "I (foldl f a xs)"
  using assms by (induction xs arbitrary: a) auto

lemma do_indices_of_iff:
  "i \<in> set (do_indices_of cs) \<longleftrightarrow> i < length cs \<and> is_Do (cs ! i)"
  by (auto simp: do_indices_of_def)

lemma rule_1_step_ok:
  assumes "\<forall>out \<in> set (fst acc). introduces_nothing T out"
  shows "\<forall>out \<in> set (fst (rule_1_step (outcome T) (conditions T) dv ov g acc W)).
           introduces_nothing T out"
proof -
  have c: "introduces_nothing T
             (CausalProbability (outcome T) (filter (\<lambda>c. \<not> drops W c) (conditions T)))"
    by (rule introduces_nothingI) (simp add: derived_condition_def)
  show ?thesis
    using assms c emit_subset[of _ acc]
    by (auto simp: rule_1_step_def Let_def split: sum.splits bool.splits)
qed

lemma rule_2_step_ok:
  assumes "\<forall>out \<in> set (fst acc). introduces_nothing T out"
    and "idx \<in> set (do_indices_of (conditions T))"
  shows "\<forall>out \<in> set (fst (rule_2_step g (outcome T) (conditions T) di ov acc idx)).
           introduces_nothing T out"
proof -
  let ?cs = "conditions T"
  from assms(2) have i: "idx < length ?cs" "is_Do (?cs ! idx)"
    by (simp_all add: do_indices_of_iff)
  have c: "introduces_nothing T
             (CausalProbability (outcome T) (?cs[idx := Symbol (expr_var (?cs ! idx))]))"
  proof (rule introduces_nothingI)
    fix c' assume "c' \<in> set (?cs[idx := Symbol (expr_var (?cs ! idx))])"
    then have "c' \<in> insert (Symbol (expr_var (?cs ! idx))) (set ?cs)"
      using set_update_subset_insert by fast
    then show "derived_condition ?cs c'"
      using i by (auto simp: derived_condition_def)
  qed
  show ?thesis
    using assms(1) c emit_subset[of _ acc]
    by (auto simp: rule_2_step_def Let_def split: sum.splits bool.splits)
qed

lemma rule_3_step_ok:
  assumes "\<forall>out \<in> set (fst acc). introduces_nothing T out"
    and "rule_3_step g (outcome T) (conditions T) di ov acc z_idx = Inr acc'"
  shows "\<forall>out \<in> set (fst acc'). introduces_nothing T out"
proof -
  let ?cs = "conditions T"
  have c: "introduces_nothing T
             (CausalProbability (outcome T) (take z_idx ?cs @ drop (Suc z_idx) ?cs))"
  proof (rule introduces_nothingI)
    fix c' assume "c' \<in> set (take z_idx ?cs @ drop (Suc z_idx) ?cs)"
    then have "c' \<in> set ?cs" by (auto dest: in_set_takeD in_set_dropD)
    then show "derived_condition ?cs c'" by (simp add: derived_condition_def)
  qed
  show ?thesis
    using assms c emit_subset[of _ acc]
    by (auto simp: rule_3_step_def Let_def split: sum.splits bool.splits)
qed

lemma rule_3_loop_ok:
  assumes "\<forall>out \<in> set (fst acc). introduces_nothing T out"
    and "rule_3_loop g (outcome T) (conditions T) di ov acc idxs = Inr acc'"
  shows "\<forall>out \<in> set (fst acc'). introduces_nothing T out"
  using assms
proof (induction idxs arbitrary: acc)
  case Nil
  then show ?case by simp
next
  case (Cons i idxs)
  from Cons.prems(2) obtain a where
    s: "rule_3_step g (outcome T) (conditions T) di ov acc i = Inr a"
    and l: "rule_3_loop g (outcome T) (conditions T) di ov a idxs = Inr acc'"
    by (auto split: sum.splits)
  from rule_3_step_ok[OF Cons.prems(1) s] have "\<forall>out \<in> set (fst a). introduces_nothing T out" .
  from Cons.IH[OF this l] show ?case .
qed

lemma rule_1_introduces_nothing:
  "out \<in> set (apply_rule_1_all G T) \<Longrightarrow> introduces_nothing T out"
proof -
  assume o: "out \<in> set (apply_rule_1_all G T)"
  have "\<forall>out \<in> set (fst (foldl (rule_1_step (outcome T) (conditions T) dv ov g) ([], {}) xs)).
          introduces_nothing T out" for dv ov g xs
    by (rule foldl_invariant) (simp, rule rule_1_step_ok)
  with o show ?thesis
    by (auto simp: apply_rule_1_all_def Let_def split: if_splits)
qed

lemma rule_2_introduces_nothing:
  "out \<in> set (apply_rule_2_all G T) \<Longrightarrow> introduces_nothing T out"
proof -
  assume o: "out \<in> set (apply_rule_2_all G T)"
  have "\<forall>out \<in> set (fst (foldl (rule_2_step G (outcome T) (conditions T) di ov) ([], {})
                            (do_indices_of (conditions T)))).
          introduces_nothing T out" for di ov
    by (rule foldl_invariant) (simp, rule rule_2_step_ok)
  with o show ?thesis
    by (auto simp: apply_rule_2_all_def Let_def split: if_splits)
qed

lemma rule_3_introduces_nothing:
  "apply_rule_3_all G T = Inr outs \<Longrightarrow> out \<in> set outs \<Longrightarrow> introduces_nothing T out"
proof -
  assume a: "apply_rule_3_all G T = Inr outs" and o: "out \<in> set outs"
  show ?thesis
  proof (cases "do_indices_of (conditions T) = []")
    case True
    with a o show ?thesis by (simp add: apply_rule_3_all_def)
  next
    case False
    with a obtain acc' where
      l: "rule_3_loop G (outcome T) (conditions T) (do_indices_of (conditions T))
            (obs_vars_of (conditions T)) ([], {}) (do_indices_of (conditions T)) = Inr acc'"
      and f: "outs = fst acc'"
      by (cases "rule_3_loop G (outcome T) (conditions T) (do_indices_of (conditions T))
            (obs_vars_of (conditions T)) ([], {}) (do_indices_of (conditions T))")
         (auto simp: apply_rule_3_all_def Let_def)
    have "\<forall>out \<in> set (fst acc'). introduces_nothing T out"
      by (rule rule_3_loop_ok[OF _ l]) simp
    with o f show ?thesis by simp
  qed
qed

text \<open>
  Claim C10. Whatever one of the three enumerators emits for a term \<open>T\<close> on a graph
  \<open>G\<close> has the outcome of \<open>T\<close>; each of its conditions is a condition of \<open>T\<close> or the bare
  observation of the variable of an intervention of \<open>T\<close> (Rule 2); and it mentions no
  variable that \<open>T\<close> does not mention. (Rule 3 may raise instead of returning; then it
  emits nothing.)
\<close>

theorem enumerators_introduce_nothing:
  assumes "out \<in> set (apply_rule_1_all G T) \<union> set (apply_rule_2_all G T)
                 \<union> (case apply_rule_3_all G T of Inl e \<Rightarrow> {} | Inr outs \<Rightarrow> set outs)"
  shows "outcome out = outcome T
       \<and> (\<forall>c' \<in> set (conditions out).
             c' \<in> set (conditions T)
             \<or> (\<exists>c \<in> set (conditions T). is_Do c \<and> c' = Symbol (expr_var c)))
       \<and> term_vars out \<subseteq> term_vars T"
proof -
  from assms have "introduces_nothing T out"
    using rule_1_introduces_nothing rule_2_introduces_nothing rule_3_introduces_nothing
    by (auto split: sum.splits)
  then show ?thesis
    by (auto simp: introduces_nothing_def list_all_iff derived_condition_def)
qed

theorem enumerators_introduce_nothing_witness:
  "outcome (CP (Symbol ''Y'') [Symbol ''Z'']) = Symbol ''Y''
   \<and> term_vars (CP (Symbol ''Y'') [Symbol ''Z''])
       \<subseteq> term_vars (CausalProbability (Symbol ''Y'') [Do ''Z'' (Some (IntVal 1))])"
proof -
  have m: "CP (Symbol ''Y'') [Symbol ''Z'']
        \<in> set (apply_rule_1_all (build_graph [(''Z'', []), (''Y'', [])])
                 (CausalProbability (Symbol ''Y'') [Do ''Z'' (Some (IntVal 1))]))
          \<union> set (apply_rule_2_all (build_graph [(''Z'', []), (''Y'', [])])
                 (CausalProbability (Symbol ''Y'') [Do ''Z'' (Some (IntVal 1))]))
          \<union> (case apply_rule_3_all (build_graph [(''Z'', []), (''Y'', [])])
                 (CausalProbability (Symbol ''Y'') [Do ''Z'' (Some (IntVal 1))]) of
               Inl e \<Rightarrow> {} | Inr outs \<Rightarrow> set outs)"
    by code_simp
  from enumerators_introduce_nothing[OF m] show ?thesis
    by (simp add: CausalProbability_def)
qed

section \<open>The entry point of the proof search\<close>

text \<open>
  An expression has an unsupported shape when it is not a term and \<open>_as_subtraction_pair\<close>
  does not read it as a difference: simplified, it is not a sum, or one of its summands
  has a coefficient other than 1 and -1, or it has not exactly one summand of each sign.
\<close>

definition unsupported_shape :: "(expr \<Rightarrow> expr) \<Rightarrow> expr \<Rightarrow> bool" where
  "unsupported_shape simplify e = (as_term e = None \<and> as_subtraction_pair simplify e = None)"

text \<open>
  Claim C2, as the code has it. When the start or the target is neither a term nor read
  as a difference, \<open>find_proof\<close> raises \<open>TypeError\<close> (with the message "Unsupported
  expression type ..."); when the two are not both terms, both are read as differences and
  one of the four operands is not a term, it raises \<open>TypeError\<close> as well (with the message
  "ATE terms must be CausalProbability instances"). The code has no other exception class
  of its own. This holds whatever \<open>sp.simplify\<close> returns.
\<close>

theorem unsupported_expression_raises_TypeError:
  "(unsupported_shape simplify start_expr \<or> unsupported_shape simplify target_expr \<longrightarrow>
      find_proof simplify f start_expr target_expr
        = Inl (TypeError
            ''Unsupported expression type: expected CausalProbability or A-B of CausalProbability''))
   \<and> ((as_term start_expr = None \<or> as_term target_expr = None)
        \<and> as_subtraction_pair simplify start_expr = Some (A1, B1)
        \<and> as_subtraction_pair simplify target_expr = Some (A2, B2)
        \<and> (as_term A1 = None \<or> as_term B1 = None \<or> as_term A2 = None \<or> as_term B2 = None) \<longrightarrow>
      find_proof simplify f start_expr target_expr
        = Inl (TypeError ''ATE terms must be CausalProbability instances''))"
proof (intro conjI impI)
  assume "unsupported_shape simplify start_expr \<or> unsupported_shape simplify target_expr"
  then show "find_proof simplify f start_expr target_expr
        = Inl (TypeError
            ''Unsupported expression type: expected CausalProbability or A-B of CausalProbability'')"
    by (auto simp: unsupported_shape_def find_proof_def split: option.splits)
next
  assume a: "(as_term start_expr = None \<or> as_term target_expr = None)
        \<and> as_subtraction_pair simplify start_expr = Some (A1, B1)
        \<and> as_subtraction_pair simplify target_expr = Some (A2, B2)
        \<and> (as_term A1 = None \<or> as_term B1 = None \<or> as_term A2 = None \<or> as_term B2 = None)"
  then show "find_proof simplify f start_expr target_expr
        = Inl (TypeError ''ATE terms must be CausalProbability instances'')"
    by (auto simp: find_proof_def split: option.splits)
qed

text \<open>
  Three calls, on expressions that \<open>sp.simplify\<close> returns as they are: the sum
  \<open>P(A) + P(B)\<close> as start is unsupported; so is \<open>P(Y) - 3\<close>, which sympy holds as the sum
  of \<open>-3\<close> and \<open>P(Y)\<close> and whose summand \<open>-3\<close> has coefficient \<open>-3\<close>; and \<open>P(Y) - Z\<close>, with
  \<open>Z\<close> a plain symbol, is read as a difference whose second operand is not a term.
\<close>

theorem unsupported_expression_raises_TypeError_witness:
  "find_proof (\<lambda>e. e) \<lparr>causal_structure = [], max_depth = 1\<rparr>
     (Add [Prob (CP (Symbol ''A'') []), Prob (CP (Symbol ''B'') [])])
     (Prob (CP (Symbol ''Y'') []))
   = Inl (TypeError
       ''Unsupported expression type: expected CausalProbability or A-B of CausalProbability'')
   \<and> find_proof (\<lambda>e. e) \<lparr>causal_structure = [], max_depth = 1\<rparr>
     (Add [Number (- 3), Prob (CP (Symbol ''Y'') [])])
     (Add [Prob (CP (Symbol ''Y'') []), Mul [Number (- 1), Prob (CP (Symbol ''W'') [])]])
   = Inl (TypeError
       ''Unsupported expression type: expected CausalProbability or A-B of CausalProbability'')
   \<and> find_proof (\<lambda>e. e) \<lparr>causal_structure = [], max_depth = 1\<rparr>
     (Add [Prob (CP (Symbol ''Y'') []), Mul [Number (- 1), Sym ''Z'']])
     (Add [Prob (CP (Symbol ''Y'') []), Mul [Number (- 1), Prob (CP (Symbol ''W'') [])]])
   = Inl (TypeError ''ATE terms must be CausalProbability instances'')"
proof -
  let ?f = "\<lparr>causal_structure = [], max_depth = 1\<rparr>"
  let ?Y = "Prob (CP (Symbol ''Y'') [])"
  let ?W = "Prob (CP (Symbol ''W'') [])"
  let ?sum = "Add [Prob (CP (Symbol ''A'') []), Prob (CP (Symbol ''B'') [])]"
  let ?minus3 = "Add [Number (- 3), ?Y]"
  let ?minusZ = "Add [?Y, Mul [Number (- 1), Sym ''Z'']]"
  let ?target = "Add [?Y, Mul [Number (- 1), ?W]]"
  have u: "unsupported_shape (\<lambda>e. e) ?sum"
    by (simp add: unsupported_shape_def as_subtraction_pair_def as_coeff_Mul_def)
  have v: "unsupported_shape (\<lambda>e. e) ?minus3"
    by (simp add: unsupported_shape_def as_subtraction_pair_def as_coeff_Mul_def)
  have s: "as_term ?minusZ = None" "as_subtraction_pair (\<lambda>e. e) ?minusZ = Some (?Y, Sym ''Z'')"
    "as_term (Sym ''Z'') = None"
    by (simp_all add: as_subtraction_pair_def as_coeff_Mul_def)
  have t: "as_subtraction_pair (\<lambda>e. e) ?target = Some (?Y, ?W)"
    by (simp add: as_subtraction_pair_def as_coeff_Mul_def)
  show ?thesis
    using u v s t
      unsupported_expression_raises_TypeError[of "\<lambda>e. e" ?sum ?Y ?f]
      unsupported_expression_raises_TypeError[of "\<lambda>e. e" ?minus3 ?target ?f]
      unsupported_expression_raises_TypeError[of "\<lambda>e. e" ?minusZ ?target ?f
        ?Y "Sym ''Z''" ?Y ?W]
    by simp
qed

text \<open>
  Claim C2 as written fails: for a product as start expression the exception raised is
  a \<open>TypeError\<close>, not an \<open>UnsupportedExpression\<close>.
\<close>

theorem unsupported_expression_counterexample:
  "map_sum error_class id
     (find_proof (\<lambda>e. e) \<lparr>causal_structure = [], max_depth = 1\<rparr>
        (Mult [Prob (CP (Symbol ''A'') [Symbol ''B'']), Prob (CP (Symbol ''B'') [])])
        (Prob (CP (Symbol ''Y'') [])))
   = Inl ''TypeError''
   \<and> ''TypeError'' \<noteq> ''UnsupportedExpression''"
  by (simp add: find_proof_def as_subtraction_pair_def)

section \<open>Terms whose outcome is an equality\<close>

text \<open>
  What an enumerator emits when every candidate of its loop passes the test: the
  candidates in order, less those whose rendering was already emitted.
\<close>

definition emit_all :: "causal_probability list \<Rightarrow> causal_probability list" where
  "emit_all cands = fst (foldl (\<lambda>acc cand. emit cand acc) ([], {}) cands)"

lemma nodes_remove_incoming [simp]: "nodes (remove_incoming g x) = nodes g"
  by (simp add: remove_incoming_def)

lemma nodes_remove_outgoing [simp]: "nodes (remove_outgoing g x) = nodes g"
  by (simp add: remove_outgoing_def)

lemma nodes_foldl_remove_incoming [simp]: "nodes (foldl remove_incoming g xs) = nodes g"
  by (induction xs arbitrary: g) simp_all

lemma nodes_create_intervention_graph [simp]:
  "nodes (create_intervention_graph g xs) = nodes g"
  by (simp add: create_intervention_graph_def)

lemma missing_endpoint_separated:
  "s \<noteq> t \<Longrightarrow> s \<notin> nodes g \<Longrightarrow> is_d_separated g s t Z = Inr True"
  by (simp add: is_d_separated_def)

lemma obs_vars_subset: "set (obs_vars_of cs) \<subseteq> expr_var ` set cs"
  by (auto simp: obs_vars_of_def)

lemma do_index_var: "i \<in> set (do_indices_of cs) \<Longrightarrow> expr_var (cs ! i) \<in> expr_var ` set cs"
  by (auto simp: do_indices_of_def)

lemma foldl_step_cong:
  "(\<And>acc x. x \<in> set xs \<Longrightarrow> f acc x = g acc x) \<Longrightarrow> foldl f a xs = foldl g a xs"
  by (induction xs arbitrary: a) simp_all

lemma rule_3_loop_all:
  assumes "\<And>acc i. i \<in> set idxs \<Longrightarrow> rule_3_step g Y cs di ov acc i = Inr (emit (h i) acc)"
  shows "rule_3_loop g Y cs di ov a idxs = Inr (foldl (\<lambda>acc i. emit (h i) acc) a idxs)"
  using assms by (induction idxs arbitrary: a) simp_all

lemma is_ancestor_of_obs_total:
  assumes "Z \<in> nodes g" and "set Ws \<subseteq> nodes g"
  shows "\<exists>b. is_ancestor_of_obs g Z Ws = Inr b"
  using assms by (induction Ws) (auto simp: has_path_def split: bool.splits)

lemma eq_outcome_sep:
  assumes "outcome T = Eq y v"
    and "str_expr (Eq y v) \<notin> nodes G"
    and "str_expr (Eq y v) \<notin> expr_var ` set (conditions T)"
    and "nodes g = nodes G" and "w \<in> expr_var ` set (conditions T)"
  shows "custom_d_separation (outcome T) w zs g = Inr True"
proof -
  from assms(3,5) have "str_expr (Eq y v) \<noteq> w" by auto
  then have "is_d_separated g (str_expr (Eq y v)) w (set zs) = Inr True"
    using assms(2,4) by (intro missing_endpoint_separated) simp_all
  then show ?thesis
    unfolding custom_d_separation_def assms(1) .
qed


lemma rule_1_step_eq:
  assumes "outcome T = Eq y v"
    and "str_expr (Eq y v) \<notin> nodes G"
    and "str_expr (Eq y v) \<notin> expr_var ` set (conditions T)"
    and "W \<in> set (obs_vars_of (conditions T))"
  shows "rule_1_step (outcome T) (conditions T) dv ov (create_intervention_graph G dv) acc W
       = emit (CausalProbability (outcome T) (filter (\<lambda>c. \<not> drops W c) (conditions T))) acc"
proof -
  have w: "W \<in> expr_var ` set (conditions T)"
    using assms(4) obs_vars_subset by blast
  have "custom_d_separation (outcome T) W zs (create_intervention_graph G dv) = Inr True" for zs
    by (rule eq_outcome_sep[OF assms(1-3) _ w]) simp
  then show ?thesis
    by (simp add: rule_1_step_def Let_def)
qed

lemma rule_2_step_eq:
  assumes "outcome T = Eq y v"
    and "str_expr (Eq y v) \<notin> nodes G"
    and "str_expr (Eq y v) \<notin> expr_var ` set (conditions T)"
    and "idx \<in> set (do_indices_of (conditions T))"
  shows "rule_2_step G (outcome T) (conditions T) di ov acc idx
       = emit (CausalProbability (outcome T)
                 ((conditions T)[idx := Symbol (expr_var (conditions T ! idx))])) acc"
proof -
  have "custom_d_separation (outcome T) (expr_var (conditions T ! idx)) zs
          (remove_outgoing (foldl remove_incoming G xs) x) = Inr True" for zs xs x
    by (rule eq_outcome_sep[OF assms(1-3) _ do_index_var[OF assms(4)]]) simp
  then show ?thesis
    by (simp add: rule_2_step_def Let_def)
qed

lemma rule_3_step_eq:
  assumes "outcome T = Eq y v"
    and "str_expr (Eq y v) \<notin> nodes G"
    and "str_expr (Eq y v) \<notin> expr_var ` set (conditions T)"
    and "obs_vars_of (conditions T) = [] \<or> expr_var ` set (conditions T) \<subseteq> nodes G"
    and "i \<in> set (do_indices_of (conditions T))"
  shows "rule_3_step G (outcome T) (conditions T) di (obs_vars_of (conditions T)) acc i
       = Inr (emit (CausalProbability (outcome T)
                      (take i (conditions T) @ drop (Suc i) (conditions T))) acc)"
proof -
  let ?cs = "conditions T"
  let ?g = "foldl remove_incoming G (map (\<lambda>i. expr_var (?cs ! i)) (filter (\<lambda>j. j \<noteq> i) di))"
  have "\<exists>b. is_ancestor_of_obs ?g (expr_var (?cs ! i)) (obs_vars_of ?cs) = Inr b"
  proof (cases "obs_vars_of ?cs = []")
    case True
    then have "is_ancestor_of_obs ?g (expr_var (?cs ! i)) (obs_vars_of ?cs) = Inr False" by simp
    then show ?thesis ..
  next
    case False
    with assms(4) have s: "expr_var ` set ?cs \<subseteq> nodes G" by simp
    have "expr_var (?cs ! i) \<in> nodes ?g"
      using s do_index_var[OF assms(5)] by auto
    moreover have "set (obs_vars_of ?cs) \<subseteq> nodes ?g"
      using s obs_vars_subset[of ?cs] by auto
    ultimately show ?thesis by (rule is_ancestor_of_obs_total)
  qed
  then obtain b where b: "is_ancestor_of_obs ?g (expr_var (?cs ! i)) (obs_vars_of ?cs) = Inr b" ..
  have t: "custom_d_separation (outcome T) (expr_var (?cs ! i)) zs
          (if \<not> b then remove_incoming ?g (expr_var (?cs ! i)) else ?g) = Inr True" for zs
    by (rule eq_outcome_sep[OF assms(1-3) _ do_index_var[OF assms(5)]]) simp
  show ?thesis
    unfolding rule_3_step_def Let_def b using t by simp
qed


lemma rule_1_all_eq:
  assumes "outcome T = Eq y v"
    and "str_expr (Eq y v) \<notin> nodes G"
    and "str_expr (Eq y v) \<notin> expr_var ` set (conditions T)"
  shows "apply_rule_1_all G T
       = emit_all (map (\<lambda>W. CausalProbability (outcome T)
                              (filter (\<lambda>c. \<not> drops W c) (conditions T)))
                     (obs_vars_of (conditions T)))"
proof (cases "obs_vars_of (conditions T) = []")
  case True
  then show ?thesis by (simp add: apply_rule_1_all_def emit_all_def Let_def)
next
  case False
  then have ne: "conditions T \<noteq> []" by (auto simp: obs_vars_of_def)
  have "foldl (rule_1_step (outcome T) (conditions T) dv ov (create_intervention_graph G dv)) a
          (obs_vars_of (conditions T))
      = foldl (\<lambda>acc W. emit (CausalProbability (outcome T)
                                 (filter (\<lambda>c. \<not> drops W c) (conditions T))) acc) a
          (obs_vars_of (conditions T))" for dv ov a
    by (rule foldl_step_cong) (rule rule_1_step_eq[OF assms])
  with False ne show ?thesis
    by (simp add: apply_rule_1_all_def emit_all_def Let_def foldl_map)
qed

lemma rule_2_all_eq:
  assumes "outcome T = Eq y v"
    and "str_expr (Eq y v) \<notin> nodes G"
    and "str_expr (Eq y v) \<notin> expr_var ` set (conditions T)"
  shows "apply_rule_2_all G T
       = emit_all (map (\<lambda>idx. CausalProbability (outcome T)
                                ((conditions T)[idx := Symbol (expr_var (conditions T ! idx))]))
                     (do_indices_of (conditions T)))"
proof -
  have "foldl (rule_2_step G (outcome T) (conditions T) di ov) a (do_indices_of (conditions T))
      = foldl (\<lambda>acc idx. emit (CausalProbability (outcome T)
                   ((conditions T)[idx := Symbol (expr_var (conditions T ! idx))])) acc) a
          (do_indices_of (conditions T))" for di ov a
    by (rule foldl_step_cong) (rule rule_2_step_eq[OF assms])
  then show ?thesis
    by (simp add: apply_rule_2_all_def emit_all_def Let_def foldl_map)
qed

lemma rule_3_all_eq:
  assumes "outcome T = Eq y v"
    and "str_expr (Eq y v) \<notin> nodes G"
    and "str_expr (Eq y v) \<notin> expr_var ` set (conditions T)"
    and "obs_vars_of (conditions T) = [] \<or> expr_var ` set (conditions T) \<subseteq> nodes G"
  shows "apply_rule_3_all G T
       = Inr (emit_all (map (\<lambda>idx. CausalProbability (outcome T)
                                (take idx (conditions T) @ drop (Suc idx) (conditions T)))
                     (do_indices_of (conditions T))))"
proof -
  have "rule_3_loop G (outcome T) (conditions T) di (obs_vars_of (conditions T)) a
          (do_indices_of (conditions T))
      = Inr (foldl (\<lambda>acc idx. emit (CausalProbability (outcome T)
                  (take idx (conditions T) @ drop (Suc idx) (conditions T))) acc) a
             (do_indices_of (conditions T)))" for di a
    by (rule rule_3_loop_all) (rule rule_3_step_eq[OF assms])
  then show ?thesis
    by (simp add: apply_rule_3_all_def emit_all_def Let_def foldl_map)
qed


text \<open>
  Claim C4, as the code has it. Let the outcome of a term be an equality, rendered
  \<open>Eq(Y, v)\<close>, let the graph have no vertex of that name and the term no condition on
  a variable of that name. Then every test the enumerators make (on any graph with the
  vertices of \<open>G\<close>, for any variable of a condition) answers "separated"; Rule 1 emits,
  for each observed variable, the term without the observations of it; Rule 2 emits a
  successor for every intervention; and so does Rule 3 when its ancestor test cannot
  raise, that is when the term has no observation or all variables of its conditions are
  vertices. Each list is deduplicated by rendering, and none depends on the edges.
\<close>

theorem equality_outcome_always_separated:
  assumes "outcome T = Eq y v"
    and "str_expr (Eq y v) \<notin> nodes G"
    and "str_expr (Eq y v) \<notin> expr_var ` set (conditions T)"
  shows "(\<forall>g w zs. nodes g = nodes G \<and> w \<in> expr_var ` set (conditions T)
            \<longrightarrow> custom_d_separation (outcome T) w zs g = Inr True)
       \<and> apply_rule_1_all G T
           = emit_all (map (\<lambda>W. CausalProbability (outcome T)
                                  (filter (\<lambda>c. \<not> drops W c) (conditions T)))
                         (obs_vars_of (conditions T)))
       \<and> apply_rule_2_all G T
           = emit_all (map (\<lambda>idx. CausalProbability (outcome T)
                                    ((conditions T)[idx := Symbol (expr_var (conditions T ! idx))]))
                         (do_indices_of (conditions T)))
       \<and> (obs_vars_of (conditions T) = [] \<or> expr_var ` set (conditions T) \<subseteq> nodes G
            \<longrightarrow> apply_rule_3_all G T
                = Inr (emit_all (map (\<lambda>idx. CausalProbability (outcome T)
                                    (take idx (conditions T) @ drop (Suc idx) (conditions T)))
                         (do_indices_of (conditions T)))))"
proof (intro conjI allI impI)
  fix g :: digraph and w zs
  assume "nodes g = nodes G \<and> w \<in> expr_var ` set (conditions T)"
  then show "custom_d_separation (outcome T) w zs g = Inr True"
    using eq_outcome_sep[OF assms] by blast
next
  show "apply_rule_1_all G T
           = emit_all (map (\<lambda>W. CausalProbability (outcome T)
                                  (filter (\<lambda>c. \<not> drops W c) (conditions T)))
                         (obs_vars_of (conditions T)))"
    by (rule rule_1_all_eq[OF assms])
next
  show "apply_rule_2_all G T
           = emit_all (map (\<lambda>idx. CausalProbability (outcome T)
                                    ((conditions T)[idx := Symbol (expr_var (conditions T ! idx))]))
                         (do_indices_of (conditions T)))"
    by (rule rule_2_all_eq[OF assms])
next
  assume "obs_vars_of (conditions T) = [] \<or> expr_var ` set (conditions T) \<subseteq> nodes G"
  then show "apply_rule_3_all G T
                = Inr (emit_all (map (\<lambda>idx. CausalProbability (outcome T)
                                    (take idx (conditions T) @ drop (Suc idx) (conditions T)))
                         (do_indices_of (conditions T))))"
    by (rule rule_3_all_eq[OF assms])
qed

theorem equality_outcome_always_separated_witness:
  "apply_rule_1_all (build_graph [(''X'', [''Y'']), (''W'', [''Y'']), (''Y'', [])])
     (CausalProbability (Eq ''Y'' (IntVal 1)) [Do ''X'' None, Symbol ''W''])
   = [CP (Eq ''Y'' (IntVal 1)) [Do ''X'' None]]
   \<and> apply_rule_2_all (build_graph [(''X'', [''Y'']), (''W'', [''Y'']), (''Y'', [])])
     (CausalProbability (Eq ''Y'' (IntVal 1)) [Do ''X'' None, Symbol ''W''])
   = [CP (Eq ''Y'' (IntVal 1)) [Symbol ''W'', Symbol ''X'']]
   \<and> apply_rule_3_all (build_graph [(''X'', [''Y'']), (''W'', [''Y'']), (''Y'', [])])
     (CausalProbability (Eq ''Y'' (IntVal 1)) [Do ''X'' None, Symbol ''W''])
   = Inr [CP (Eq ''Y'' (IntVal 1)) [Symbol ''W'']]"
proof -
  let ?G = "build_graph [(''X'', [''Y'']), (''W'', [''Y'']), (''Y'', [])]"
  let ?T = "CausalProbability (Eq ''Y'' (IntVal 1)) [Do ''X'' None, Symbol ''W'']"
  have h1: "outcome ?T = Eq ''Y'' (IntVal 1)" by (simp add: CausalProbability_def)
  have h2: "str_expr (Eq ''Y'' (IntVal 1)) \<notin> nodes ?G" by code_simp
  have h3: "str_expr (Eq ''Y'' (IntVal 1)) \<notin> expr_var ` set (conditions ?T)" by code_simp
  have h4: "obs_vars_of (conditions ?T) = [] \<or> expr_var ` set (conditions ?T) \<subseteq> nodes ?G"
    by code_simp
  note th = equality_outcome_always_separated[OF h1 h2 h3]
  have "apply_rule_1_all ?G ?T
      = emit_all (map (\<lambda>W. CausalProbability (outcome ?T)
                                  (filter (\<lambda>c. \<not> drops W c) (conditions ?T)))
                         (obs_vars_of (conditions ?T)))"
    using th by blast
  also have "\<dots> = [CP (Eq ''Y'' (IntVal 1)) [Do ''X'' None]]" by code_simp
  finally have r1: "apply_rule_1_all ?G ?T = [CP (Eq ''Y'' (IntVal 1)) [Do ''X'' None]]" .
  have "apply_rule_2_all ?G ?T
      = emit_all (map (\<lambda>idx. CausalProbability (outcome ?T)
                                    ((conditions ?T)[idx := Symbol (expr_var (conditions ?T ! idx))]))
                         (do_indices_of (conditions ?T)))"
    using th by blast
  also have "\<dots> = [CP (Eq ''Y'' (IntVal 1)) [Symbol ''W'', Symbol ''X'']]" by code_simp
  finally have r2: "apply_rule_2_all ?G ?T = [CP (Eq ''Y'' (IntVal 1)) [Symbol ''W'', Symbol ''X'']]" .
  have "apply_rule_3_all ?G ?T
      = Inr (emit_all (map (\<lambda>idx. CausalProbability (outcome ?T)
                                    (take idx (conditions ?T) @ drop (Suc idx) (conditions ?T)))
                         (do_indices_of (conditions ?T))))"
    using th h4 by blast
  also have "\<dots> = Inr [CP (Eq ''Y'' (IntVal 1)) [Symbol ''W'']]" by code_simp
  finally have r3: "apply_rule_3_all ?G ?T = Inr [CP (Eq ''Y'' (IntVal 1)) [Symbol ''W'']]" .
  from r1 r2 r3 show ?thesis by (intro conjI)
qed

text \<open>
  Claim C4 as written fails. A graph can have a vertex named \<open>Eq(Y, 1)\<close>: with an edge
  from it to \<open>W\<close> the test for \<open>P(Y=1 | W)\<close> answers "not separated" and Rule 1 emits
  nothing. And Rule 3 raises \<open>NodeNotFound\<close> for \<open>P(Y=1 | do(Z), W)\<close> when \<open>W\<close> is not a
  vertex.
\<close>

theorem equality_outcome_counterexample:
  "custom_d_separation (Eq ''Y'' (IntVal 1)) ''W'' [] (build_graph [(''Eq(Y, 1)'', [''W''])])
     = Inr False
   \<and> apply_rule_1_all (build_graph [(''Eq(Y, 1)'', [''W''])])
       (CausalProbability (Eq ''Y'' (IntVal 1)) [Symbol ''W'']) = []
   \<and> apply_rule_3_all (build_graph [(''Z'', [])])
       (CausalProbability (Eq ''Y'' (IntVal 1)) [Do ''Z'' None, Symbol ''W'']) = Inl NodeNotFound"
  by code_simp

section \<open>Cycle repair\<close>

text \<open>
  What \<open>nx.simple_cycles\<close> promises. A cycle is given as the list of its vertices; its
  edges lead from each vertex to the next and from the last back to the first. The
  routine lists simple cycles of the graph only, and lists every simple cycle of the
  graph, each under some rotation of its vertex list.
\<close>

definition cycle_edges :: "string list \<Rightarrow> (string \<times> string) set" where
  "cycle_edges c = set (map (\<lambda>i. (c ! i, c ! (Suc i mod length c))) [0..<length c])"

definition simple_cycle :: "(string \<times> string) set \<Rightarrow> string list \<Rightarrow> bool" where
  "simple_cycle E c = (c \<noteq> [] \<and> distinct c \<and> cycle_edges c \<subseteq> E)"

definition lists_simple_cycles :: "digraph \<Rightarrow> string list list \<Rightarrow> bool" where
  "lists_simple_cycles G cycles =
     (list_all (simple_cycle (edges G)) cycles
      \<and> (\<forall>c. simple_cycle (edges G) c \<longrightarrow> (\<exists>n. rotate n c \<in> set cycles)))"

lemma cycle_edges_iff:
  "e \<in> cycle_edges c \<longleftrightarrow> (\<exists>i < length c. e = (c ! i, c ! (Suc i mod length c)))"
  by (auto simp: cycle_edges_def)

lemma closing_edge_in_cycle:
  assumes "c \<noteq> []"
  shows "(last c, hd c) \<in> cycle_edges c"
proof -
  from assms have l: "length c - 1 < length c" by (simp add: Suc_leI)
  have "last c = c ! (length c - 1)" using assms by (rule last_conv_nth)
  moreover have "hd c = c ! (Suc (length c - 1) mod length c)"
    using assms by (simp add: hd_conv_nth)
  ultimately show ?thesis
    unfolding cycle_edges_iff using l by blast
qed

lemma cycle_edges_rotate: "cycle_edges (rotate n c) \<subseteq> cycle_edges c"
proof
  fix e assume "e \<in> cycle_edges (rotate n c)"
  then obtain i where i: "i < length c"
    and e: "e = (rotate n c ! i, rotate n c ! (Suc i mod length c))"
    by (auto simp: cycle_edges_iff)
  let ?l = "length c" and ?j = "(i + n) mod length c"
  from i have pos: "0 < ?l" by (cases c) simp_all
  have a: "rotate n c ! i = c ! ?j" using i by (auto simp: nth_rotate add.commute)
  have "rotate n c ! (Suc i mod ?l) = c ! ((Suc i mod ?l + n) mod ?l)"
    using pos by (auto simp: nth_rotate add.commute)
  also have "(Suc i mod ?l + n) mod ?l = Suc ?j mod ?l"
    by (metis add_Suc mod_Suc_eq mod_add_left_eq)
  finally have b: "rotate n c ! (Suc i mod ?l) = c ! (Suc ?j mod ?l)" .
  have "?j < ?l" using pos by simp
  with e a b show "e \<in> cycle_edges c"
    unfolding cycle_edges_iff by blast
qed

lemma path_gives_simple_cycle:
  assumes p: "rtrancl_path (\<lambda>a b. (a, b) \<in> E) y xs x" and d: "distinct (y # xs)"
    and c: "(x, y) \<in> E"
  shows "simple_cycle E (y # xs)"
proof -
  have "e \<in> E" if "e \<in> cycle_edges (y # xs)" for e
  proof -
    from that obtain i where i: "i < Suc (length xs)"
      and e: "e = ((y # xs) ! i, (y # xs) ! (Suc i mod Suc (length xs)))"
      by (auto simp: cycle_edges_iff)
    show ?thesis
    proof (cases "i < length xs")
      case True
      then have "Suc i mod Suc (length xs) = Suc i" by simp
      with e have "e = ((y # xs) ! i, xs ! i)" by simp
      with rtrancl_path_nth[OF p True] show ?thesis by simp
    next
      case False
      with i have il: "i = length xs" by simp
      have "(y # xs) ! length xs = x"
      proof (cases "xs = []")
        case True
        with p show ?thesis by (auto elim: rtrancl_path.cases)
      next
        case False
        then have "(y # xs) ! length xs = last xs"
          by (cases xs rule: rev_cases) (simp_all add: nth_append)
        with rtrancl_path_last[OF p False] show ?thesis by simp
      qed
      with e il c show ?thesis by simp
    qed
  qed
  with d show ?thesis by (auto simp: simple_cycle_def)
qed

lemma cycle_has_simple_cycle:
  assumes "(x, x) \<in> E\<^sup>+"
  shows "\<exists>c. simple_cycle E c"
proof -
  from assms obtain y where xy: "(x, y) \<in> E" and yx: "(y, x) \<in> E\<^sup>*"
    by (meson tranclD)
  from yx have "(\<lambda>a b. (a, b) \<in> E)\<^sup>*\<^sup>* y x" by (simp add: rtrancl_def)
  then obtain xs where "rtrancl_path (\<lambda>a b. (a, b) \<in> E) y xs x"
    unfolding rtranclp_eq_rtrancl_path ..
  then obtain xs' where "rtrancl_path (\<lambda>a b. (a, b) \<in> E) y xs' x" "distinct (y # xs')"
    by (rule rtrancl_path_distinct)
  from path_gives_simple_cycle[OF this xy] show ?thesis ..
qed

lemma acyclic_after_removal:
  assumes "\<And>c. simple_cycle E c \<Longrightarrow> \<exists>n. rotate n c \<in> set cycles"
  shows "acyclic (E - set (map (\<lambda>cycle. (last cycle, hd cycle)) cycles))"
proof (rule acyclicI, rule allI, rule notI)
  let ?R = "set (map (\<lambda>cycle. (last cycle, hd cycle)) cycles)"
  fix x assume "(x, x) \<in> (E - ?R)\<^sup>+"
  then obtain c where c: "simple_cycle (E - ?R) c"
    using cycle_has_simple_cycle by blast
  then have "simple_cycle E c" by (auto simp: simple_cycle_def)
  from assms[OF this] obtain n where n: "rotate n c \<in> set cycles" ..
  then have r: "(last (rotate n c), hd (rotate n c)) \<in> ?R" by force
  from c have "rotate n c \<noteq> []" by (simp add: simple_cycle_def)
  then have "(last (rotate n c), hd (rotate n c)) \<in> cycle_edges (rotate n c)"
    by (rule closing_edge_in_cycle)
  then have "(last (rotate n c), hd (rotate n c)) \<in> cycle_edges c"
    using cycle_edges_rotate by blast
  with c have "(last (rotate n c), hd (rotate n c)) \<in> E - ?R"
    by (auto simp: simple_cycle_def)
  with r show False by simp
qed

lemma edges_build_graph:
  "edges (build_graph cs) = {(p, c). \<exists>chs. (p, chs) \<in> set cs \<and> c \<in> set chs}"
  by (auto simp: build_graph_def)

lemma edges_in_nodes: "(u, v) \<in> edges (build_graph cs) \<Longrightarrow> u \<in> nodes (build_graph cs)"
  by (force simp: build_graph_def)

lemma parent_in_node_list:
  "(u, v) \<in> edges (build_graph cs) \<Longrightarrow>
   u \<in> set (concat (map (\<lambda>(parent, children). parent # children) cs))"
  by (force simp: build_graph_def)

lemma set_first_occurrences [simp]: "set (first_occurrences xs) = set xs"
  by (simp add: first_occurrences_def)

lemma dag_iff_acyclic:
  "is_directed_acyclic_graph (build_graph cs) \<longleftrightarrow> acyclic (edges (build_graph cs))"
proof
  assume d: "is_directed_acyclic_graph (build_graph cs)"
  show "acyclic (edges (build_graph cs))"
  proof (rule acyclicI, rule allI, rule notI)
    fix x assume x: "(x, x) \<in> (edges (build_graph cs))\<^sup>+"
    then obtain y where "(x, y) \<in> edges (build_graph cs)" by (meson tranclD)
    then have "x \<in> nodes (build_graph cs)" by (rule edges_in_nodes)
    with d x show False by (auto simp: is_directed_acyclic_graph_def)
  qed
next
  assume "acyclic (edges (build_graph cs))"
  then show "is_directed_acyclic_graph (build_graph cs)"
    by (auto simp: is_directed_acyclic_graph_def acyclic_def)
qed


lemma children_mem:
  "c \<in> set (map snd (filter (\<lambda>(u, v). u = p) F)) \<longleftrightarrow> (p, c) \<in> set F"
  by (induction F) auto

lemma rebuilt_structure_mem:
  "(p, chs) \<in> set (filter (\<lambda>(node, children). children \<noteq> [])
           (map (\<lambda>node. (node, map snd (filter (\<lambda>(u, v). u = node) F))) N))
   \<longleftrightarrow> p \<in> set N \<and> chs = map snd (filter (\<lambda>(u, v). u = p) F) \<and> chs \<noteq> []"
  by (induction N) auto

lemma rebuilt_edges:
  assumes "fst ` set F \<subseteq> set N"
  shows "edges (build_graph (filter (\<lambda>(node, children). children \<noteq> [])
           (map (\<lambda>node. (node, map snd (filter (\<lambda>(u, v). u = node) F))) N))) = set F"
proof (rule set_eqI)
  fix e :: "string \<times> string"
  obtain u v where e: "e = (u, v)" by (cases e)
  let ?S = "filter (\<lambda>(node, children). children \<noteq> [])
           (map (\<lambda>node. (node, map snd (filter (\<lambda>(u, v). u = node) F))) N)"
  have "(u, v) \<in> edges (build_graph ?S)
      \<longleftrightarrow> (\<exists>chs. (u, chs) \<in> set ?S \<and> v \<in> set chs)"
    unfolding edges_build_graph by simp
  also have "\<dots> \<longleftrightarrow> u \<in> set N \<and> (u, v) \<in> set F"
    unfolding rebuilt_structure_mem using children_mem[of v u F] by fastforce
  also have "\<dots> \<longleftrightarrow> (u, v) \<in> set F"
    using assms by force
  finally show "e \<in> edges (build_graph ?S) \<longleftrightarrow> e \<in> set F"
    unfolding e .
qed


lemma validate_edges:
  assumes "cs \<noteq> []" and "\<not> is_directed_acyclic_graph (build_graph cs)"
    and "[] \<notin> set (simple_cycles (build_graph cs))"
  shows "edges (build_graph (validate_causal_structure simple_cycles cs))
       = edges (build_graph cs)
         - set (map (\<lambda>cycle. (last cycle, hd cycle)) (simple_cycles (build_graph cs)))"
proof -
  let ?R = "set (map (\<lambda>cycle. (last cycle, hd cycle)) (simple_cycles (build_graph cs)))"
  let ?N = "first_occurrences (concat (map (\<lambda>(parent, children). parent # children) cs))"
  let ?F = "filter (\<lambda>e. e \<notin> ?R)
              (first_occurrences (concat (map (\<lambda>(parent, children). map (Pair parent) children) cs)))"
  have E: "set (concat (map (\<lambda>(parent, children). map (Pair parent) children) cs))
         = edges (build_graph cs)"
    by (simp add: build_graph_def)
  have F: "set ?F = edges (build_graph cs) - ?R"
    unfolding set_filter set_first_occurrences E by blast
  have sub: "fst ` set ?F \<subseteq> set ?N"
  proof
    fix u assume "u \<in> fst ` set ?F"
    then obtain v where "(u, v) \<in> set ?F" by force
    then have "(u, v) \<in> edges (build_graph cs)" unfolding F by simp
    then show "u \<in> set ?N"
      unfolding set_first_occurrences by (rule parent_in_node_list)
  qed
  have v: "validate_causal_structure simple_cycles cs
         = filter (\<lambda>(node, children). children \<noteq> [])
             (map (\<lambda>node. (node, map snd (filter (\<lambda>(u, v). u = node) ?F))) ?N)"
    using assms by (simp add: validate_causal_structure_def Let_def)
  show ?thesis
    unfolding v rebuilt_edges[OF sub] F ..
qed


lemma rebuilt_nodes:
  assumes "\<forall>(p, chs) \<in> set cs. chs \<noteq> []"
  shows "nodes (build_graph cs) = Field (edges (build_graph cs))"
proof (rule set_eqI)
  fix v
  show "v \<in> nodes (build_graph cs) \<longleftrightarrow> v \<in> Field (edges (build_graph cs))"
  proof
    assume "v \<in> nodes (build_graph cs)"
    then consider chs where "(v, chs) \<in> set cs" | p chs where "(p, chs) \<in> set cs" "v \<in> set chs"
      by (auto simp: build_graph_def)
    then show "v \<in> Field (edges (build_graph cs))"
    proof cases
      case 1
      with assms have "chs \<noteq> []" by auto
      then obtain c where "c \<in> set chs" by (cases chs) auto
      with 1 have "(v, c) \<in> edges (build_graph cs)" unfolding edges_build_graph by blast
      then show ?thesis by (auto simp: Field_def)
    next
      case 2
      then have "(p, v) \<in> edges (build_graph cs)" unfolding edges_build_graph by blast
      then show ?thesis by (auto simp: Field_def)
    qed
  next
    assume "v \<in> Field (edges (build_graph cs))"
    then show "v \<in> nodes (build_graph cs)"
      unfolding Field_def edges_build_graph by (force simp: build_graph_def)
  qed
qed

lemma validate_nodes:
  assumes "cs \<noteq> []" and "\<not> is_directed_acyclic_graph (build_graph cs)"
    and "[] \<notin> set (simple_cycles (build_graph cs))"
  shows "nodes (build_graph (validate_causal_structure simple_cycles cs))
       = Field (edges (build_graph (validate_causal_structure simple_cycles cs)))"
proof (rule rebuilt_nodes)
  show "\<forall>(p, chs) \<in> set (validate_causal_structure simple_cycles cs). chs \<noteq> []"
    using assms by (auto simp: validate_causal_structure_def Let_def)
qed

lemma successive_edge_in_cycle:
  assumes "Suc i < length c"
  shows "(c ! i, c ! Suc i) \<in> cycle_edges c"
proof -
  from assms have "i < length c" "Suc i mod length c = Suc i" by simp_all
  then show ?thesis unfolding cycle_edges_iff by metis
qed

lemma two_cycle_lists_simple_cycles:
  assumes ab: "a \<noteq> b" and E: "edges G = {(a, b), (b, a)}"
  shows "lists_simple_cycles G [[a, b]]"
proof -
  have "cycle_edges [a, b] = {(a, b), (b, a)}"
    by (auto simp: cycle_edges_def)
  with ab E have one: "simple_cycle (edges G) [a, b]"
    by (simp add: simple_cycle_def)
  have "\<exists>n. rotate n c \<in> set [[a, b]]" if c: "simple_cycle (edges G) c" for c
  proof -
    from c have ne: "c \<noteq> []" and d: "distinct c" and sub: "cycle_edges c \<subseteq> edges G"
      by (simp_all add: simple_cycle_def)
    have l2: "length c = 2"
    proof (rule ccontr)
      assume n2: "length c \<noteq> 2"
      show False
      proof (cases "length c = 1")
        case True
        then obtain x where "c = [x]" by (cases c) auto
        with closing_edge_in_cycle[OF ne] sub have "(x, x) \<in> edges G" by auto
        with ab show False unfolding E by auto
      next
        case False
        from ne have "length c \<noteq> 0" by simp
        with n2 False have l3: "2 < length c" by arith
        then have "(c ! 0, c ! 1) \<in> edges G" "(c ! 1, c ! 2) \<in> edges G"
          using successive_edge_in_cycle[of 0 c] successive_edge_in_cycle[of 1 c] sub
          by (auto simp: numeral_2_eq_2)
        with ab have "c ! 0 = c ! 2" unfolding E by auto
        moreover from d l3 ne have "c ! 0 \<noteq> c ! 2"
          using nth_eq_iff_index_eq[of c 0 2] by simp
        ultimately show False by simp
      qed
    qed
    then obtain x y where xy: "c = [x, y]"
      by (cases c; cases "tl c") auto
    with successive_edge_in_cycle[of 0 c] sub have "(x, y) \<in> edges G" by auto
    then have "c = [a, b] \<or> c = [b, a]" unfolding E xy using d xy by auto
    then show ?thesis
    proof
      assume "c = [a, b]"
      then have "rotate 0 c \<in> set [[a, b]]" by simp
      then show ?thesis ..
    next
      assume "c = [b, a]"
      then have "rotate 1 c \<in> set [[a, b]]" by simp
      then show ?thesis ..
    qed
  qed
  with one show ?thesis by (simp add: lists_simple_cycles_def)
qed

text \<open>
  Claim C6. A structure that is acyclic is kept as it is. When the given structure has a
  cycle, the structure a \<open>CausalProofFinder\<close> keeps (and every search uses) is acyclic,
  provided \<open>nx.simple_cycles\<close> does what it promises: its graph has exactly the given edges
  less, for each listed cycle, the edge from the last vertex of the listing to its first,
  and its vertices are the endpoints of the edges that remain, so a vertex left without an
  edge is dropped. Which edge of a cycle goes is fixed by the rotation under which the
  library lists the cycle, not by the structure. The constructor has no failing branch: an
  exception raised during the repair is caught and leaves the structure as it was.
\<close>

theorem cycles_repaired_by_listed_rotation:
  "(is_directed_acyclic_graph (build_graph cs) \<longrightarrow>
      causal_structure (CausalProofFinder simple_cycles cs d) = cs)
   \<and> (\<not> is_directed_acyclic_graph (build_graph cs)
        \<and> lists_simple_cycles (build_graph cs) (simple_cycles (build_graph cs)) \<longrightarrow>
      acyclic (edges (build_graph (causal_structure (CausalProofFinder simple_cycles cs d))))
      \<and> edges (build_graph (causal_structure (CausalProofFinder simple_cycles cs d)))
          = edges (build_graph cs)
            - set (map (\<lambda>cycle. (last cycle, hd cycle)) (simple_cycles (build_graph cs)))
      \<and> nodes (build_graph (causal_structure (CausalProofFinder simple_cycles cs d)))
          = Field (edges (build_graph (causal_structure (CausalProofFinder simple_cycles cs d)))))"
proof (intro conjI impI)
  assume "is_directed_acyclic_graph (build_graph cs)"
  then show "causal_structure (CausalProofFinder simple_cycles cs d) = cs"
    by (simp add: validate_causal_structure_def CausalProofFinder_def)
next
  assume a: "\<not> is_directed_acyclic_graph (build_graph cs)
        \<and> lists_simple_cycles (build_graph cs) (simple_cycles (build_graph cs))"
  then have cyc: "\<not> is_directed_acyclic_graph (build_graph cs)" by simp
  have ne: "cs \<noteq> []"
  proof
    assume "cs = []"
    then have "is_directed_acyclic_graph (build_graph cs)"
      by (simp add: is_directed_acyclic_graph_def build_graph_def)
    with cyc show False ..
  qed
  from a have all: "\<forall>c \<in> set (simple_cycles (build_graph cs)). simple_cycle (edges (build_graph cs)) c"
    and ex: "\<And>c. simple_cycle (edges (build_graph cs)) c
               \<Longrightarrow> \<exists>n. rotate n c \<in> set (simple_cycles (build_graph cs))"
    by (auto simp: lists_simple_cycles_def list_all_iff)
  from all have nil: "[] \<notin> set (simple_cycles (build_graph cs))"
    by (auto simp: simple_cycle_def)
  from validate_edges[where cs = cs and simple_cycles = simple_cycles, OF ne cyc nil] have
    e: "edges (build_graph (validate_causal_structure simple_cycles cs))
       = edges (build_graph cs)
         - set (map (\<lambda>cycle. (last cycle, hd cycle)) (simple_cycles (build_graph cs)))" .
  have "acyclic (edges (build_graph (validate_causal_structure simple_cycles cs)))"
    unfolding e by (rule acyclic_after_removal) (rule ex)
  then show "acyclic (edges (build_graph (causal_structure (CausalProofFinder simple_cycles cs d))))"
    by (simp add: CausalProofFinder_def)
  from e show "edges (build_graph (causal_structure (CausalProofFinder simple_cycles cs d)))
          = edges (build_graph cs)
            - set (map (\<lambda>cycle. (last cycle, hd cycle)) (simple_cycles (build_graph cs)))"
    by (simp add: CausalProofFinder_def)
  from validate_nodes[where cs = cs and simple_cycles = simple_cycles, OF ne cyc nil]
  show "nodes (build_graph (causal_structure (CausalProofFinder simple_cycles cs d)))
          = Field (edges (build_graph (causal_structure (CausalProofFinder simple_cycles cs d))))"
    by (simp add: CausalProofFinder_def)
qed

theorem cycles_repaired_by_listed_rotation_witness:
  "causal_structure
     (CausalProofFinder (\<lambda>g. []) [(''X'', [''Y'']), (''W'', [])] 5) = [(''X'', [''Y'']), (''W'', [])]
   \<and> causal_structure
       (CausalProofFinder (\<lambda>g. [[''A'', ''B'']]) [(''A'', [''B'']), (''B'', [''A'']), (''W'', [])] 5)
     = [(''A'', [''B''])]
   \<and> acyclic (edges (build_graph (causal_structure
        (CausalProofFinder (\<lambda>g. [[''A'', ''B'']]) [(''A'', [''B'']), (''B'', [''A'']), (''W'', [])] 5))))
   \<and> edges (build_graph (causal_structure
        (CausalProofFinder (\<lambda>g. [[''A'', ''B'']]) [(''A'', [''B'']), (''B'', [''A'']), (''W'', [])] 5)))
      = {(''A'', ''B'')}
   \<and> nodes (build_graph (causal_structure
        (CausalProofFinder (\<lambda>g. [[''A'', ''B'']]) [(''A'', [''B'']), (''B'', [''A'']), (''W'', [])] 5)))
      = {''A'', ''B''}"
proof -
  let ?cs = "[(''A'', [''B'']), (''B'', [''A'']), (''W'', [])]"
  have dag: "is_directed_acyclic_graph (build_graph [(''X'', [''Y'']), (''W'', [])])"
    by code_simp
  have cyc: "\<not> is_directed_acyclic_graph (build_graph ?cs)"
    by code_simp
  have "edges (build_graph ?cs) = {(''A'', ''B''), (''B'', ''A'')}"
    by (auto simp: build_graph_def)
  then have l: "lists_simple_cycles (build_graph ?cs) [[''A'', ''B'']]"
    by (intro two_cycle_lists_simple_cycles) simp_all
  have s: "causal_structure (CausalProofFinder (\<lambda>g. [[''A'', ''B'']]) ?cs 5) = [(''A'', [''B''])]"
    by code_simp
  have g: "edges (build_graph [(''A'', [''B''])]) = {(''A'', ''B'')}"
    "nodes (build_graph [(''A'', [''B''])]) = {''A'', ''B''}"
    by (auto simp: build_graph_def)
  have t1: "causal_structure (CausalProofFinder (\<lambda>g. []) [(''X'', [''Y'']), (''W'', [])] 5)
            = [(''X'', [''Y'']), (''W'', [])]"
    using dag cycles_repaired_by_listed_rotation[of "[(''X'', [''Y'']), (''W'', [])]" "\<lambda>g. []" 5]
    by blast
  have t2: "acyclic (edges (build_graph (causal_structure
              (CausalProofFinder (\<lambda>g. [[''A'', ''B'']]) ?cs 5))))"
    using cyc l cycles_repaired_by_listed_rotation[of ?cs "\<lambda>g. [[''A'', ''B'']]" 5]
    by blast
  from t1 t2 s g show ?thesis by simp
qed

text \<open>
  Claim C6 as written fails in its "deterministically": the two-cycle between \<open>A\<close> and \<open>B\<close> may
  be listed as \<open>[A, B]\<close> or as \<open>[B, A]\<close>, the library promises either, and the same structure is
  repaired to \<open>{A: [B]}\<close> under the first listing and to \<open>{B: [A]}\<close> under the second.
\<close>

theorem repair_depends_on_listing_counterexample:
  "lists_simple_cycles (build_graph [(''A'', [''B'']), (''B'', [''A''])]) [[''A'', ''B'']]
   \<and> lists_simple_cycles (build_graph [(''A'', [''B'']), (''B'', [''A''])]) [[''B'', ''A'']]
   \<and> causal_structure
       (CausalProofFinder (\<lambda>g. [[''A'', ''B'']]) [(''A'', [''B'']), (''B'', [''A''])] 5)
     = [(''A'', [''B''])]
   \<and> causal_structure
       (CausalProofFinder (\<lambda>g. [[''B'', ''A'']]) [(''A'', [''B'']), (''B'', [''A''])] 5)
     = [(''B'', [''A''])]"
proof -
  let ?cs = "[(''A'', [''B'']), (''B'', [''A''])]"
  have e: "edges (build_graph ?cs) = {(''A'', ''B''), (''B'', ''A'')}"
    by (auto simp: build_graph_def)
  then have e': "edges (build_graph ?cs) = {(''B'', ''A''), (''A'', ''B'')}"
    by auto
  have 1: "lists_simple_cycles (build_graph ?cs) [[''A'', ''B'']]"
    using e by (intro two_cycle_lists_simple_cycles) simp_all
  have 2: "lists_simple_cycles (build_graph ?cs) [[''B'', ''A'']]"
    using e' by (intro two_cycle_lists_simple_cycles) simp_all
  have 3: "causal_structure (CausalProofFinder (\<lambda>g. [[''A'', ''B'']]) ?cs 5) = [(''A'', [''B''])]"
    by code_simp
  have 4: "causal_structure (CausalProofFinder (\<lambda>g. [[''B'', ''A'']]) ?cs 5) = [(''B'', [''A''])]"
    by code_simp
  from 1 2 3 4 show ?thesis by blast
qed

section \<open>The breadth-first search\<close>

text \<open>
  A proof is valid when, at every step, the rule the step declares, applied to the previous
  term on the graph, produces the step's term.  \<open>rule_outputs\<close> is the enumerator the
  label names; an enumerator that raises produces nothing.
\<close>

definition rule_outputs :: "digraph \<Rightarrow> string \<Rightarrow> causal_probability \<Rightarrow> causal_probability list" where
  "rule_outputs G rule_label t =
     (if rule_label = ''Do-calculus Rule 1'' then apply_rule_1_all G t
      else if rule_label = ''Do-calculus Rule 2'' then apply_rule_2_all G t
      else if rule_label = ''Do-calculus Rule 3''
      then (case apply_rule_3_all G t of Inl e \<Rightarrow> [] | Inr outs \<Rightarrow> outs)
      else [])"

fun valid_proof :: "digraph \<Rightarrow> causal_probability \<Rightarrow> step list \<Rightarrow> bool" where
  "valid_proof G t [] = True"
| "valid_proof G t ((rule_label, nxt) # rest) =
     (nxt \<in> set (rule_outputs G rule_label t) \<and> valid_proof G nxt rest)"

text \<open>
  Claim C7 on the code: on the graph with the two isolated vertices \<open>Z\<close> and \<open>Y\<close> and with
  depth bound 3, the search from \<open>P(Y | do(Z), do(Z))\<close> to \<open>P(Y)\<close> returns a proof of three
  steps (Rule 2, Rule 1, Rule 3), although Rule 3 applied twice is a valid proof of two
  steps: \<open>P(Y | do(Z), do(Z))\<close>, \<open>P(Y | do(Z))\<close>, \<open>P(Y)\<close>. The returned proof is not a
  shortest one.
\<close>

theorem search_misses_shorter_proof:
  "find_proof (\<lambda>e. e) \<lparr>causal_structure = [(''Z'', []), (''Y'', [])], max_depth = 3\<rparr>
      (Prob (CausalProbability (Symbol ''Y'') [Do ''Z'' None, Do ''Z'' None]))
      (Prob (CausalProbability (Symbol ''Y'') []))
     = Inr (Some (Steps
         [(''Do-calculus Rule 2'', CausalProbability (Symbol ''Y'') [Do ''Z'' None, Symbol ''Z'']),
          (''Do-calculus Rule 1'', CausalProbability (Symbol ''Y'') [Do ''Z'' None]),
          (''Do-calculus Rule 3'', CausalProbability (Symbol ''Y'') [])]))
   \<and> valid_proof (build_graph [(''Z'', []), (''Y'', [])])
        (CausalProbability (Symbol ''Y'') [Do ''Z'' None, Do ''Z'' None])
        [(''Do-calculus Rule 3'', CausalProbability (Symbol ''Y'') [Do ''Z'' None]),
         (''Do-calculus Rule 3'', CausalProbability (Symbol ''Y'') [])]"
  by code_simp

section \<open>What the breadth-first search does guarantee\<close>

text \<open>
  The search follows the steps of \<open>_do_calculus_successors\<close> only: the outputs of the three
  enumerators that are not structurally equivalent to the term they come from, one per
  state key. A \<open>chain\<close> is a proof made of such steps; a term \<open>matches\<close> the target when the
  goal test of the search accepts it; \<open>end_of\<close> is the term a proof ends in. A proof is
  \<open>proper\<close> when no step of it leads to a term equivalent to the one it is applied to, and
  the terms \<open>derivable\<close> from a term are those some valid proof leads to.
\<close>

definition matches :: "causal_probability \<Rightarrow> causal_probability \<Rightarrow> bool" where
  "matches t target = (are_expressions_equivalent t target \<or> state_key t = state_key target)"

fun chain :: "finder \<Rightarrow> causal_probability \<Rightarrow> step list \<Rightarrow> bool" where
  "chain f t [] = True"
| "chain f t (s # rest) = (s \<in> set (do_calculus_successors f t) \<and> chain f (snd s) rest)"

definition end_of :: "causal_probability \<Rightarrow> step list \<Rightarrow> causal_probability" where
  "end_of start path = (if path = [] then start else snd (last path))"

definition reach_in :: "finder \<Rightarrow> causal_probability \<Rightarrow> nat \<Rightarrow> causal_probability \<Rightarrow> bool" where
  "reach_in f A n t = (\<exists>q. chain f A q \<and> length q = n \<and> end_of A q = t)"

definition reach :: "finder \<Rightarrow> causal_probability \<Rightarrow> causal_probability set" where
  "reach f A = {t. \<exists>q. chain f A q \<and> end_of A q = t}"

fun proper :: "causal_probability \<Rightarrow> step list \<Rightarrow> bool" where
  "proper t [] = True"
| "proper t (s # rest) = (\<not> are_expressions_equivalent (snd s) t \<and> proper (snd s) rest)"

definition derivable :: "digraph \<Rightarrow> causal_probability \<Rightarrow> causal_probability set" where
  "derivable G A = {t. \<exists>q. valid_proof G A q \<and> end_of A q = t}"

text \<open>
  The invariant of the \<open>while\<close> loop, for a queue whose first entry is at depth \<open>L\<close>: the
  queue is sorted by depth and holds depths \<open>L\<close> and \<open>L + 1\<close> only, each entry with a chain
  from the start to its term; every term within \<open>L\<close> steps of the start is visited; every
  term at depth \<open>L\<close> is still queued or has all its successors visited; every visited term
  is within \<open>L\<close> steps or queued at depth \<open>L + 1\<close>; and a visited term that matches the
  target can only be the start, not yet dequeued.
\<close>

definition Inv0 ::
  "finder \<Rightarrow> causal_probability \<Rightarrow> causal_probability \<Rightarrow> nat \<Rightarrow> frontier \<Rightarrow> string set \<Rightarrow> bool" where
  "Inv0 f A tgt L queue visited =
     (sorted (map (\<lambda>e. length (snd e)) queue)
      \<and> (\<forall>e \<in> set queue. L \<le> length (snd e) \<and> length (snd e) \<le> Suc L
            \<and> chain f A (snd e) \<and> end_of A (snd e) = fst e)
      \<and> (\<forall>n t. n \<le> L \<longrightarrow> reach_in f A n t \<longrightarrow> state_key t \<in> visited)
      \<and> (\<forall>t. reach_in f A L t \<longrightarrow>
            (\<exists>p. (t, p) \<in> set queue \<and> length p = L)
            \<or> (\<forall>s \<in> set (do_calculus_successors f t). state_key (snd s) \<in> visited))
      \<and> (\<forall>t. t \<in> reach f A \<longrightarrow> state_key t \<in> visited \<longrightarrow>
            (\<exists>n \<le> L. reach_in f A n t) \<or> (\<exists>p. (t, p) \<in> set queue \<and> length p = Suc L))
      \<and> (\<forall>t. t \<in> reach f A \<longrightarrow> state_key t \<in> visited \<longrightarrow> matches t tgt \<longrightarrow>
            (t, []) \<in> set queue))"

lemma expand_Inl:
  "expand target path succs visited queue = Inl new_path \<Longrightarrow>
   \<exists>s \<in> set succs. new_path = path @ [s] \<and> state_key (snd s) \<notin> visited
      \<and> (are_expressions_equivalent (snd s) target \<or> state_key (snd s) = state_key target)"
proof (induction succs arbitrary: visited queue)
  case Nil
  then show ?case by simp
next
  case (Cons s succs)
  obtain l nxt where s: "s = (l, nxt)" by (cases s)
  show ?case
  proof (cases "state_key nxt \<in> visited")
    case True
    with Cons.prems s have "expand target path succs visited queue = Inl new_path" by simp
    from Cons.IH[OF this] show ?thesis by auto
  next
    case False
    show ?thesis
    proof (cases "are_expressions_equivalent nxt target \<or> state_key nxt = state_key target")
      case True
      with False Cons.prems s have "new_path = path @ [s]" by (simp add: Let_def)
      with True False s show ?thesis by auto
    next
      case g: False
      with False Cons.prems s have
        "expand target path succs (insert (state_key nxt) visited) (queue @ [(nxt, path @ [(l, nxt)])])
          = Inl new_path"
        by (simp add: Let_def)
      from Cons.IH[OF this] obtain s' where "s' \<in> set succs" "new_path = path @ [s']"
        "state_key (snd s') \<notin> insert (state_key nxt) visited"
        "are_expressions_equivalent (snd s') target \<or> state_key (snd s') = state_key target"
        by blast
      then show ?thesis by auto
    qed
  qed
qed

lemma bfs_length:
  "bfs f target queue visited = Some p \<Longrightarrow> int (length p) \<le> max_depth f"
proof (induction f target queue visited rule: bfs.induct)
  case (1 f target_expr visited)
  then show ?case by simp
next
  case (2 f target_expr cur path queue visited)
  show ?case
  proof (cases "max_depth f \<le> int (length path)")
    case True
    with "2.prems" have "bfs f target_expr queue visited = Some p" by simp
    from "2.IH"(1)[OF True this] show ?thesis .
  next
    case deep: False
    show ?thesis
    proof (cases "are_expressions_equivalent cur target_expr \<or> state_key cur = state_key target_expr")
      case True
      with deep "2.prems" have "p = path" by simp
      with deep show ?thesis by simp
    next
      case goal: False
      show ?thesis
      proof (cases "expand target_expr path (do_calculus_successors f cur) visited queue")
        case (Inl new_path)
        with deep goal "2.prems" have "p = new_path" by simp
        with expand_Inl[OF Inl] deep show ?thesis by auto
      next
        case (Inr r)
        obtain visited' queue' where r: "r = (visited', queue')" by (cases r)
        with Inr deep goal "2.prems" have "bfs f target_expr queue' visited' = Some p" by simp
        from "2.IH"(2)[OF deep goal Inr r[symmetric] this] show ?thesis .
      qed
    qed
  qed
qed

lemma find_proof_single_length:
  "find_proof_single f A B = Some p \<Longrightarrow> int (length p) \<le> max 0 (max_depth f)"
  using bfs_length[of f B "[(A, [])]" "{state_key A}" p]
  by (auto simp: find_proof_single_def split: if_splits)

lemma find_proof_single_depth_0:
  "max_depth f \<le> 0 \<Longrightarrow> \<not> are_expressions_equivalent A B \<Longrightarrow> find_proof_single f A B = None"
  by (simp add: find_proof_single_def)

lemma find_proof_Prob:
  "find_proof simplify f (Prob A) (Prob B) = Inr (map_option Steps (find_proof_single f A B))"
  by (simp add: find_proof_def)

lemma end_of_Nil [simp]: "end_of A [] = A"
  by (simp add: end_of_def)

lemma end_of_snoc [simp]: "end_of A (q @ [s]) = snd s"
  by (simp add: end_of_def)

lemma end_of_Cons: "end_of A (x # q) = end_of (snd x) q"
  by (simp add: end_of_def)

lemma chain_snoc:
  "chain f A (q @ [s]) = (chain f A q \<and> s \<in> set (do_calculus_successors f (end_of A q)))"
  by (induction q arbitrary: A) (auto simp: end_of_Cons)

lemma reach_in_0: "reach_in f A 0 t = (t = A)"
  by (auto simp: reach_in_def)

lemma reach_in_Suc:
  "reach_in f A (Suc n) t
     = (\<exists>w s. reach_in f A n w \<and> s \<in> set (do_calculus_successors f w) \<and> snd s = t)"
proof
  assume "reach_in f A (Suc n) t"
  then obtain q where q: "chain f A q" "length q = Suc n" "end_of A q = t"
    unfolding reach_in_def by blast
  then obtain q' s where qs: "q = q' @ [s]" by (cases q rule: rev_cases) auto
  with q have "chain f A q'" "s \<in> set (do_calculus_successors f (end_of A q'))"
    "length q' = n" "snd s = t"
    by (auto simp: chain_snoc)
  then show "\<exists>w s. reach_in f A n w \<and> s \<in> set (do_calculus_successors f w) \<and> snd s = t"
    unfolding reach_in_def by blast
next
  assume "\<exists>w s. reach_in f A n w \<and> s \<in> set (do_calculus_successors f w) \<and> snd s = t"
  then obtain w s q where "chain f A q" "length q = n" "end_of A q = w"
    "s \<in> set (do_calculus_successors f w)" "snd s = t"
    unfolding reach_in_def by blast
  then have "chain f A (q @ [s]) \<and> length (q @ [s]) = Suc n \<and> end_of A (q @ [s]) = t"
    by (simp add: chain_snoc)
  then show "reach_in f A (Suc n) t" unfolding reach_in_def by blast
qed

lemma reach_in_reach: "reach_in f A n t \<Longrightarrow> t \<in> reach f A"
  unfolding reach_in_def reach_def by blast

lemma reach_in_path: "chain f A q \<Longrightarrow> reach_in f A (length q) (end_of A q)"
  unfolding reach_in_def by blast

lemma expand_Inr:
  "expand target path succs visited queue = Inr (visited', queue') \<Longrightarrow>
   visited' = visited \<union> state_key ` snd ` set succs
   \<and> (\<exists>new. queue' = queue @ new
        \<and> (\<forall>e \<in> set new. \<exists>s \<in> set succs. e = (snd s, path @ [s])
              \<and> state_key (snd s) \<notin> visited \<and> \<not> matches (snd s) target)
        \<and> (\<forall>s \<in> set succs. state_key (snd s) \<notin> visited \<longrightarrow>
              (\<exists>s' \<in> set succs. state_key (snd s') = state_key (snd s)
                  \<and> (snd s', path @ [s']) \<in> set new)))"
proof (induction succs arbitrary: visited queue)
  case Nil
  then show ?case by simp
next
  case (Cons s0 succs)
  obtain l nxt where s0: "s0 = (l, nxt)" by (cases s0)
  show ?case
  proof (cases "state_key nxt \<in> visited")
    case True
    with Cons.prems s0 have "expand target path succs visited queue = Inr (visited', queue')"
      by simp
    from Cons.IH[OF this] obtain new where
      v: "visited' = visited \<union> state_key ` snd ` set succs" and
      q: "queue' = queue @ new" and
      n1: "\<forall>e \<in> set new. \<exists>s \<in> set succs. e = (snd s, path @ [s])
              \<and> state_key (snd s) \<notin> visited \<and> \<not> matches (snd s) target" and
      n2: "\<forall>s \<in> set succs. state_key (snd s) \<notin> visited \<longrightarrow>
              (\<exists>s' \<in> set succs. state_key (snd s') = state_key (snd s)
                  \<and> (snd s', path @ [s']) \<in> set new)"
      by blast
    have v': "visited' = visited \<union> state_key ` snd ` set (s0 # succs)"
      using v True s0 by auto
    have n1': "\<forall>e \<in> set new. \<exists>s \<in> set (s0 # succs). e = (snd s, path @ [s])
              \<and> state_key (snd s) \<notin> visited \<and> \<not> matches (snd s) target"
      using n1 by auto
    have n2': "\<forall>s \<in> set (s0 # succs). state_key (snd s) \<notin> visited \<longrightarrow>
              (\<exists>s' \<in> set (s0 # succs). state_key (snd s') = state_key (snd s)
                  \<and> (snd s', path @ [s']) \<in> set new)"
      using n2 True s0 by auto
    from v' q n1' n2' show ?thesis by blast
  next
    case False
    with Cons.prems s0 have ng: "\<not> matches nxt target"
      by (auto simp: matches_def Let_def split: if_splits)
    with False Cons.prems s0 have
      "expand target path succs (insert (state_key nxt) visited) (queue @ [(nxt, path @ [s0])])
         = Inr (visited', queue')"
      by (simp add: matches_def Let_def)
    from Cons.IH[OF this] obtain new where
      v: "visited' = insert (state_key nxt) visited \<union> state_key ` snd ` set succs" and
      q: "queue' = (queue @ [(nxt, path @ [s0])]) @ new" and
      n1: "\<forall>e \<in> set new. \<exists>s \<in> set succs. e = (snd s, path @ [s])
              \<and> state_key (snd s) \<notin> insert (state_key nxt) visited \<and> \<not> matches (snd s) target" and
      n2: "\<forall>s \<in> set succs. state_key (snd s) \<notin> insert (state_key nxt) visited \<longrightarrow>
              (\<exists>s' \<in> set succs. state_key (snd s') = state_key (snd s)
                  \<and> (snd s', path @ [s']) \<in> set new)"
      by blast
    let ?new = "(nxt, path @ [s0]) # new"
    have v': "visited' = visited \<union> state_key ` snd ` set (s0 # succs)"
      using v s0 by auto
    have q': "queue' = queue @ ?new" using q by simp
    have n1': "\<forall>e \<in> set ?new. \<exists>s \<in> set (s0 # succs). e = (snd s, path @ [s])
              \<and> state_key (snd s) \<notin> visited \<and> \<not> matches (snd s) target"
    proof
      fix e assume "e \<in> set ?new"
      then consider "e = (nxt, path @ [s0])" | "e \<in> set new" by auto
      then show "\<exists>s \<in> set (s0 # succs). e = (snd s, path @ [s])
              \<and> state_key (snd s) \<notin> visited \<and> \<not> matches (snd s) target"
      proof cases
        case 1
        with False ng s0 show ?thesis by auto
      next
        case 2
        with n1 obtain s where "s \<in> set succs" "e = (snd s, path @ [s])"
          "state_key (snd s) \<notin> insert (state_key nxt) visited" "\<not> matches (snd s) target"
          by blast
        then show ?thesis by auto
      qed
    qed
    have n2': "\<forall>s \<in> set (s0 # succs). state_key (snd s) \<notin> visited \<longrightarrow>
              (\<exists>s' \<in> set (s0 # succs). state_key (snd s') = state_key (snd s)
                  \<and> (snd s', path @ [s']) \<in> set ?new)"
    proof (intro ballI impI)
      fix s assume s: "s \<in> set (s0 # succs)" and nv: "state_key (snd s) \<notin> visited"
      show "\<exists>s' \<in> set (s0 # succs). state_key (snd s') = state_key (snd s)
                  \<and> (snd s', path @ [s']) \<in> set ?new"
      proof (cases "state_key (snd s) = state_key nxt")
        case True
        with s0 show ?thesis by auto
      next
        case ne: False
        with s s0 have "s \<in> set succs" by auto
        moreover from ne nv have "state_key (snd s) \<notin> insert (state_key nxt) visited" by simp
        ultimately obtain s' where "s' \<in> set succs" "state_key (snd s') = state_key (snd s)"
          "(snd s', path @ [s']) \<in> set new"
          using n2 by blast
        then show ?thesis by auto
      qed
    qed
    from v' q' n1' n2' show ?thesis by blast
  qed
qed

lemma sorted_const:
  "\<forall>e \<in> set xs. g e = (c::nat) \<Longrightarrow> sorted (map g xs)"
  by (induction xs) auto

lemma bfs_deep:
  "\<forall>e \<in> set queue. max_depth f \<le> int (length (snd e)) \<Longrightarrow> bfs f tgt queue visited = None"
  by (induction queue) auto

lemma Inv0_initial:
  assumes inj: "inj_on state_key (reach f A)"
  shows "Inv0 f A tgt 0 [(A, [])] {state_key A}"
proof -
  have A: "A \<in> reach f A" using reach_in_reach[of f A 0 A] by (simp add: reach_in_0)
  have eq: "t = A" if "t \<in> reach f A" "state_key t = state_key A" for t
    using inj that A by (auto dest: inj_onD)
  show ?thesis
    unfolding Inv0_def
  proof (intro conjI)
    show "sorted (map (\<lambda>e. length (snd e)) [(A, [])])" by simp
    show "\<forall>e \<in> set [(A, [])]. 0 \<le> length (snd e) \<and> length (snd e) \<le> Suc 0
            \<and> chain f A (snd e) \<and> end_of A (snd e) = fst e" by simp
    show "\<forall>n t. n \<le> 0 \<longrightarrow> reach_in f A n t \<longrightarrow> state_key t \<in> {state_key A}"
      by (simp add: reach_in_0)
    show "\<forall>t. reach_in f A 0 t \<longrightarrow>
            (\<exists>p. (t, p) \<in> set [(A, [])] \<and> length p = 0)
            \<or> (\<forall>s \<in> set (do_calculus_successors f t). state_key (snd s) \<in> {state_key A})"
      by (simp add: reach_in_0)
    show "\<forall>t. t \<in> reach f A \<longrightarrow> state_key t \<in> {state_key A} \<longrightarrow>
            (\<exists>n \<le> 0. reach_in f A n t) \<or> (\<exists>p. (t, p) \<in> set [(A, [])] \<and> length p = Suc 0)"
      using eq by (auto simp: reach_in_0)
    show "\<forall>t. t \<in> reach f A \<longrightarrow> state_key t \<in> {state_key A} \<longrightarrow> matches t tgt \<longrightarrow>
            (t, []) \<in> set [(A, [])]"
      using eq by auto
  qed
qed

lemma Inv0_advance:
  assumes inv: "Inv0 f A tgt L queue visited"
    and lev: "\<forall>e \<in> set queue. length (snd e) = Suc L"
  shows "Inv0 f A tgt (Suc L) queue visited"
proof -
  from inv have
    srt: "sorted (map (\<lambda>e. length (snd e)) queue)" and
    ent: "\<forall>e \<in> set queue. L \<le> length (snd e) \<and> length (snd e) \<le> Suc L
            \<and> chain f A (snd e) \<and> end_of A (snd e) = fst e" and
    cov: "\<forall>n t. n \<le> L \<longrightarrow> reach_in f A n t \<longrightarrow> state_key t \<in> visited" and
    fro: "\<forall>t. reach_in f A L t \<longrightarrow>
            (\<exists>p. (t, p) \<in> set queue \<and> length p = L)
            \<or> (\<forall>s \<in> set (do_calculus_successors f t). state_key (snd s) \<in> visited)" and
    vis: "\<forall>t. t \<in> reach f A \<longrightarrow> state_key t \<in> visited \<longrightarrow>
            (\<exists>n \<le> L. reach_in f A n t) \<or> (\<exists>p. (t, p) \<in> set queue \<and> length p = Suc L)" and
    gol: "\<forall>t. t \<in> reach f A \<longrightarrow> state_key t \<in> visited \<longrightarrow> matches t tgt \<longrightarrow>
            (t, []) \<in> set queue"
    unfolding Inv0_def by blast+
  have noL: "\<not> (\<exists>p. (t, p) \<in> set queue \<and> length p = L)" for t
    using lev by fastforce
  have cov': "state_key t \<in> visited" if "n \<le> Suc L" "reach_in f A n t" for n t
  proof (cases "n \<le> L")
    case True
    with cov that show ?thesis by blast
  next
    case False
    with that have "reach_in f A (Suc L) t" by (simp add: le_Suc_eq)
    then obtain w s where w: "reach_in f A L w" "s \<in> set (do_calculus_successors f w)" "snd s = t"
      unfolding reach_in_Suc by blast
    from fro w(1) noL[of w]
    have "\<forall>s \<in> set (do_calculus_successors f w). state_key (snd s) \<in> visited" by blast
    with w show ?thesis by blast
  qed
  have fro': "(\<exists>p. (t, p) \<in> set queue \<and> length p = Suc L)
            \<or> (\<forall>s \<in> set (do_calculus_successors f t). state_key (snd s) \<in> visited)"
    if r: "reach_in f A (Suc L) t" for t
  proof -
    from r have "t \<in> reach f A" by (rule reach_in_reach)
    moreover from r cov' have "state_key t \<in> visited" by blast
    ultimately consider n where "n \<le> L" "reach_in f A n t"
      | p where "(t, p) \<in> set queue" "length p = Suc L"
      using vis by blast
    then show ?thesis
    proof cases
      case 1
      have "state_key (snd s) \<in> visited" if "s \<in> set (do_calculus_successors f t)" for s
      proof -
        from 1 that have "reach_in f A (Suc n) (snd s)" unfolding reach_in_Suc by blast
        with cov'[of "Suc n" "snd s"] 1 show ?thesis by simp
      qed
      then show ?thesis by blast
    next
      case 2
      then show ?thesis by blast
    qed
  qed
  have vis': "(\<exists>n \<le> Suc L. reach_in f A n t) \<or> (\<exists>p. (t, p) \<in> set queue \<and> length p = Suc (Suc L))"
    if "t \<in> reach f A" "state_key t \<in> visited" for t
  proof -
    from vis that consider n where "n \<le> L" "reach_in f A n t"
      | p where "(t, p) \<in> set queue" "length p = Suc L"
      by blast
    then show ?thesis
    proof cases
      case 1
      then have "n \<le> Suc L" by simp
      with 1 show ?thesis by blast
    next
      case 2
      with ent have "chain f A p" "end_of A p = t" by fastforce+
      with 2 have "reach_in f A (Suc L) t" unfolding reach_in_def by blast
      then show ?thesis by blast
    qed
  qed
  have ent': "\<forall>e \<in> set queue. Suc L \<le> length (snd e) \<and> length (snd e) \<le> Suc (Suc L)
            \<and> chain f A (snd e) \<and> end_of A (snd e) = fst e"
    using ent lev by simp
  show ?thesis
    unfolding Inv0_def
    using srt ent' cov' fro' vis' gol by blast
qed

lemma Inv0_step:
  assumes inv: "Inv0 f A tgt L ((cur, path) # rest) visited"
    and inj: "inj_on state_key (reach f A)"
    and len: "length path = L"
    and ng: "\<not> matches cur tgt"
    and ex: "expand tgt path (do_calculus_successors f cur) visited rest = Inr (visited', queue')"
  shows "Inv0 f A tgt L queue' visited'"
proof -
  let ?queue = "(cur, path) # rest"
  let ?succs = "do_calculus_successors f cur"
  from inv have
    srt: "sorted (map (\<lambda>e. length (snd e)) ?queue)" and
    ent: "\<forall>e \<in> set ?queue. L \<le> length (snd e) \<and> length (snd e) \<le> Suc L
            \<and> chain f A (snd e) \<and> end_of A (snd e) = fst e" and
    cov: "\<forall>n t. n \<le> L \<longrightarrow> reach_in f A n t \<longrightarrow> state_key t \<in> visited" and
    fro: "\<forall>t. reach_in f A L t \<longrightarrow>
            (\<exists>p. (t, p) \<in> set ?queue \<and> length p = L)
            \<or> (\<forall>s \<in> set (do_calculus_successors f t). state_key (snd s) \<in> visited)" and
    vis: "\<forall>t. t \<in> reach f A \<longrightarrow> state_key t \<in> visited \<longrightarrow>
            (\<exists>n \<le> L. reach_in f A n t) \<or> (\<exists>p. (t, p) \<in> set ?queue \<and> length p = Suc L)" and
    gol: "\<forall>t. t \<in> reach f A \<longrightarrow> state_key t \<in> visited \<longrightarrow> matches t tgt \<longrightarrow>
            (t, []) \<in> set ?queue"
    unfolding Inv0_def by blast+
  from ent have cur: "chain f A path" "end_of A path = cur" by simp_all
  from expand_Inr[OF ex] obtain new where
    v': "visited' = visited \<union> state_key ` snd ` set ?succs" and
    q': "queue' = rest @ new" and
    n1: "\<forall>e \<in> set new. \<exists>s \<in> set ?succs. e = (snd s, path @ [s])
              \<and> state_key (snd s) \<notin> visited \<and> \<not> matches (snd s) tgt" and
    n2: "\<forall>s \<in> set ?succs. state_key (snd s) \<notin> visited \<longrightarrow>
              (\<exists>s' \<in> set ?succs. state_key (snd s') = state_key (snd s)
                  \<and> (snd s', path @ [s']) \<in> set new)"
    by blast
  have succ_chain: "chain f A (path @ [s])" if "s \<in> set ?succs" for s
    using that cur by (simp add: chain_snoc)
  have succ_reach: "snd s \<in> reach f A" if "s \<in> set ?succs" for s
    using reach_in_reach[OF reach_in_path[OF succ_chain[OF that]]] by simp
  have newlen: "length (snd e) = Suc L" if "e \<in> set new" for e
    using n1 that len by fastforce
  have newent: "chain f A (snd e) \<and> end_of A (snd e) = fst e" if "e \<in> set new" for e
  proof -
    from n1 that obtain s where "s \<in> set ?succs" "e = (snd s, path @ [s])" by blast
    with succ_chain[of s] show ?thesis by simp
  qed
  have fresh: "\<exists>p. (t, p) \<in> set new \<and> length p = Suc L \<and> \<not> matches t tgt"
    if t: "t \<in> reach f A" "state_key t \<in> visited'" "state_key t \<notin> visited" for t
  proof -
    from t v' obtain s where s: "s \<in> set ?succs" "state_key (snd s) = state_key t" by auto
    with t n2 obtain s' where s': "s' \<in> set ?succs" "state_key (snd s') = state_key t"
      "(snd s', path @ [s']) \<in> set new"
      by metis
    from inj succ_reach[OF s'(1)] t(1) s'(2) have "snd s' = t" by (auto dest: inj_onD)
    moreover from n1 s'(3) have "\<not> matches (snd s') tgt" by fastforce
    ultimately show ?thesis using s'(3) len by auto
  qed
  have srt': "sorted (map (\<lambda>e. length (snd e)) queue')"
  proof -
    from srt have "sorted (map (\<lambda>e. length (snd e)) rest)" by simp
    moreover have "sorted (map (\<lambda>e. length (snd e)) new)"
      using newlen by (intro sorted_const[where c = "Suc L"]) blast
    moreover have "\<forall>x \<in> set rest. \<forall>y \<in> set new. length (snd x) \<le> length (snd y)"
      using ent newlen by simp
    ultimately show ?thesis unfolding q' by (simp add: sorted_append)
  qed
  have ent': "\<forall>e \<in> set queue'. L \<le> length (snd e) \<and> length (snd e) \<le> Suc L
            \<and> chain f A (snd e) \<and> end_of A (snd e) = fst e"
  proof
    fix e assume "e \<in> set queue'"
    then consider "e \<in> set rest" | "e \<in> set new" unfolding q' by auto
    then show "L \<le> length (snd e) \<and> length (snd e) \<le> Suc L
            \<and> chain f A (snd e) \<and> end_of A (snd e) = fst e"
    proof cases
      case 1
      with ent show ?thesis by simp
    next
      case 2
      with newlen[of e] newent[of e] show ?thesis by simp
    qed
  qed
  have cov': "\<forall>n t. n \<le> L \<longrightarrow> reach_in f A n t \<longrightarrow> state_key t \<in> visited'"
    using cov v' by blast
  have fro': "(\<exists>p. (t, p) \<in> set queue' \<and> length p = L)
            \<or> (\<forall>s \<in> set (do_calculus_successors f t). state_key (snd s) \<in> visited')"
    if r: "reach_in f A L t" for t
  proof -
    from fro r consider p where "(t, p) \<in> set ?queue" "length p = L"
      | "\<forall>s \<in> set (do_calculus_successors f t). state_key (snd s) \<in> visited"
      by blast
    then show ?thesis
    proof cases
      case 1
      show ?thesis
      proof (cases "t = cur")
        case True
        then show ?thesis using v' by auto
      next
        case False
        with 1 have "(t, p) \<in> set queue'" unfolding q' by auto
        with 1 show ?thesis by blast
      qed
    next
      case 2
      then show ?thesis using v' by blast
    qed
  qed
  have vis': "(\<exists>n \<le> L. reach_in f A n t) \<or> (\<exists>p. (t, p) \<in> set queue' \<and> length p = Suc L)"
    if t: "t \<in> reach f A" "state_key t \<in> visited'" for t
  proof (cases "state_key t \<in> visited")
    case True
    with vis t consider n where "n \<le> L" "reach_in f A n t"
      | p where "(t, p) \<in> set ?queue" "length p = Suc L"
      by blast
    then show ?thesis
    proof cases
      case 1
      then show ?thesis by blast
    next
      case 2
      with len have "(t, p) \<in> set rest" by auto
      with 2 show ?thesis unfolding q' by auto
    qed
  next
    case False
    from fresh[OF t False] show ?thesis unfolding q' by auto
  qed
  have gol': "(t, []) \<in> set queue'"
    if t: "t \<in> reach f A" "state_key t \<in> visited'" "matches t tgt" for t
  proof (cases "state_key t \<in> visited")
    case True
    with gol t have "(t, []) \<in> set ?queue" by blast
    moreover from t(3) ng have "t \<noteq> cur" by auto
    ultimately show ?thesis unfolding q' by auto
  next
    case False
    from fresh[OF t(1,2) False] t(3) show ?thesis by blast
  qed
  show ?thesis
    unfolding Inv0_def
    using srt' ent' cov' fro' vis' gol' by blast
qed

lemma bfs_shortest:
  "bfs f tgt queue visited = Some p \<Longrightarrow> Inv0 f A tgt L queue visited \<Longrightarrow>
   (queue \<noteq> [] \<longrightarrow> length (snd (hd queue)) = L) \<Longrightarrow>
   inj_on state_key (reach f A) \<Longrightarrow> chain f A q \<Longrightarrow> matches (end_of A q) tgt \<Longrightarrow>
   length p \<le> length q"
proof (induction f tgt queue visited arbitrary: L rule: bfs.induct)
  case (1 f target_expr visited)
  then show ?case by simp
next
  case (2 f target_expr cur path queue visited)
  let ?queue = "(cur, path) # queue"
  note inv = "2.prems"(2)
  from "2.prems"(3) have len: "length path = L" by simp
  from inv have
    srt: "sorted (map (\<lambda>e. length (snd e)) ?queue)" and
    ent: "\<forall>e \<in> set ?queue. L \<le> length (snd e) \<and> length (snd e) \<le> Suc L
            \<and> chain f A (snd e) \<and> end_of A (snd e) = fst e" and
    cov: "\<forall>n t. n \<le> L \<longrightarrow> reach_in f A n t \<longrightarrow> state_key t \<in> visited" and
    gol: "\<forall>t. t \<in> reach f A \<longrightarrow> state_key t \<in> visited \<longrightarrow> matches t target_expr \<longrightarrow>
            (t, []) \<in> set ?queue"
    unfolding Inv0_def by blast+
  from ent have cur: "chain f A path" "end_of A path = cur" by simp_all
  have early: "L = 0 \<and> t = A" if t: "reach_in f A n t" "n \<le> L" "matches t target_expr" for n t
  proof -
    from t cov have "state_key t \<in> visited" by blast
    with gol t reach_in_reach[OF t(1)] have m: "(t, []) \<in> set ?queue" by blast
    with ent have "L \<le> length (snd (t, []::step list))" and "end_of A (snd (t, []::step list)) = fst (t, []::step list)"
      by blast+
    then show ?thesis by simp
  qed
  show ?case
  proof (cases "max_depth f \<le> int (length path)")
    case True
    have "\<forall>e \<in> set queue. max_depth f \<le> int (length (snd e))"
    proof
      fix e assume "e \<in> set queue"
      with ent have "L \<le> length (snd e)" by simp
      with True len show "max_depth f \<le> int (length (snd e))" by simp
    qed
    then have "bfs f target_expr queue visited = None" by (rule bfs_deep)
    with True "2.prems"(1) show ?thesis by simp
  next
    case deep: False
    show ?thesis
    proof (cases "matches cur target_expr")
      case True
      with deep "2.prems"(1) have "p = path" by (simp add: matches_def)
      moreover from early[OF reach_in_path[OF cur(1)]] cur(2) len True have "L = 0" by simp
      ultimately show ?thesis using len by simp
    next
      case goal: False
      then have goal': "\<not> (are_expressions_equivalent cur target_expr
                          \<or> state_key cur = state_key target_expr)"
        by (simp add: matches_def)
      show ?thesis
      proof (cases "expand target_expr path (do_calculus_successors f cur) visited queue")
        case (Inl new_path)
        with deep goal' "2.prems"(1) have "p = new_path" by simp
        with expand_Inl[OF Inl] have lp: "length p = Suc L" using len by auto
        have "\<not> length q \<le> L"
        proof
          assume le: "length q \<le> L"
          from early[OF reach_in_path[OF "2.prems"(5)] le "2.prems"(6)]
          have "L = 0" "end_of A q = A" by simp_all
          with len cur have "cur = A" by simp
          with \<open>end_of A q = A\<close> "2.prems"(6) goal show False by simp
        qed
        with lp show ?thesis by simp
      next
        case (Inr r)
        obtain visited' queue' where r: "r = (visited', queue')" by (cases r)
        with Inr deep goal' "2.prems"(1) have b: "bfs f target_expr queue' visited' = Some p"
          by simp
        from Inr r have ex: "expand target_expr path (do_calculus_successors f cur) visited queue
                          = Inr (visited', queue')" by simp
        from Inv0_step[OF inv "2.prems"(4) len goal ex]
        have inv': "Inv0 f A target_expr L queue' visited'" .
        note IH = "2.IH"(2)[OF deep goal' Inr r[symmetric] b _ _ "2.prems"(4,5,6)]
        show ?thesis
        proof (cases "queue' = []")
          case True
          with b show ?thesis by simp
        next
          case ne: False
          from inv' have
            srt': "sorted (map (\<lambda>e. length (snd e)) queue')" and
            ent': "\<forall>e \<in> set queue'. L \<le> length (snd e) \<and> length (snd e) \<le> Suc L"
            unfolding Inv0_def by blast+
          from ne have hdin: "hd queue' \<in> set queue'" by simp
          show ?thesis
          proof (cases "length (snd (hd queue')) = L")
            case True
            with inv' IH[of L] show ?thesis by simp
          next
            case False
            with ent' hdin have hL: "length (snd (hd queue')) = Suc L"
              by (metis le_Suc_eq le_antisym)
            have "\<forall>e \<in> set queue'. length (snd e) = Suc L"
            proof
              fix e assume e: "e \<in> set queue'"
              from ne obtain x xs where xs: "queue' = x # xs" by (cases queue') auto
              with srt' e have "length (snd x) \<le> length (snd e)" by auto
              with hL xs have "Suc L \<le> length (snd e)" by simp
              with ent' e show "length (snd e) = Suc L" by (simp add: le_antisym)
            qed
            from Inv0_advance[OF inv' this] hL IH[of "Suc L"] show ?thesis by simp
          qed
        qed
      qed
    qed
  qed
qed

lemma bfs_chain:
  "bfs f tgt queue visited = Some p \<Longrightarrow>
   \<forall>e \<in> set queue. chain f A (snd e) \<and> end_of A (snd e) = fst e \<Longrightarrow>
   chain f A p \<and> matches (end_of A p) tgt"
proof (induction f tgt queue visited rule: bfs.induct)
  case (1 f target_expr visited)
  then show ?case by simp
next
  case (2 f target_expr cur path queue visited)
  from "2.prems"(2) have cur: "chain f A path" "end_of A path = cur" by simp_all
  show ?case
  proof (cases "max_depth f \<le> int (length path)")
    case True
    with "2.prems" have "bfs f target_expr queue visited = Some p" by simp
    from "2.IH"(1)[OF True this] "2.prems"(2) show ?thesis by simp
  next
    case deep: False
    show ?thesis
    proof (cases "are_expressions_equivalent cur target_expr \<or> state_key cur = state_key target_expr")
      case True
      with deep "2.prems" have "p = path" by simp
      with cur True show ?thesis by (simp add: matches_def)
    next
      case goal: False
      show ?thesis
      proof (cases "expand target_expr path (do_calculus_successors f cur) visited queue")
        case (Inl new_path)
        with deep goal "2.prems" have "p = new_path" by simp
        with expand_Inl[OF Inl] obtain s where
          "s \<in> set (do_calculus_successors f cur)" "p = path @ [s]"
          "are_expressions_equivalent (snd s) target_expr \<or> state_key (snd s) = state_key target_expr"
          by blast
        with cur show ?thesis by (simp add: chain_snoc matches_def)
      next
        case (Inr r)
        obtain visited' queue' where r: "r = (visited', queue')" by (cases r)
        with Inr deep goal "2.prems" have b: "bfs f target_expr queue' visited' = Some p" by simp
        from Inr r have ex: "expand target_expr path (do_calculus_successors f cur) visited queue
                          = Inr (visited', queue')" by simp
        from expand_Inr[OF ex] obtain new where
          q': "queue' = queue @ new" and
          n1: "\<forall>e \<in> set new. \<exists>s \<in> set (do_calculus_successors f cur). e = (snd s, path @ [s])
              \<and> state_key (snd s) \<notin> visited \<and> \<not> matches (snd s) target_expr"
          by blast
        have "\<forall>e \<in> set queue'. chain f A (snd e) \<and> end_of A (snd e) = fst e"
        proof
          fix e assume "e \<in> set queue'"
          then consider "e \<in> set queue" | "e \<in> set new" unfolding q' by auto
          then show "chain f A (snd e) \<and> end_of A (snd e) = fst e"
          proof cases
            case 1
            with "2.prems"(2) show ?thesis by simp
          next
            case 2
            with n1 obtain s where "s \<in> set (do_calculus_successors f cur)" "e = (snd s, path @ [s])"
              by blast
            with cur show ?thesis by (simp add: chain_snoc)
          qed
        qed
        from "2.IH"(2)[OF deep goal Inr r[symmetric] b this] show ?thesis .
      qed
    qed
  qed
qed

lemma find_proof_single_chain:
  assumes "find_proof_single f A B = Some p"
  shows "chain f A p \<and> matches (end_of A p) B"
proof (cases "are_expressions_equivalent A B")
  case True
  with assms have "p = []" by (simp add: find_proof_single_def)
  with True show ?thesis by (simp add: matches_def)
next
  case False
  with assms have "bfs f B [(A, [])] {state_key A} = Some p" by (simp add: find_proof_single_def)
  from bfs_chain[OF this, of A] show ?thesis by simp
qed

lemma find_proof_single_shortest:
  assumes "find_proof_single f A B = Some p" and "inj_on state_key (reach f A)"
    and "chain f A q" and "matches (end_of A q) B"
  shows "length p \<le> length q"
proof (cases "are_expressions_equivalent A B")
  case True
  with assms(1) show ?thesis by (simp add: find_proof_single_def)
next
  case False
  with assms(1) have "bfs f B [(A, [])] {state_key A} = Some p" by (simp add: find_proof_single_def)
  from bfs_shortest[OF this Inv0_initial[OF assms(2)] _ assms(2,3,4)] show ?thesis by simp
qed

lemma valid_proof_snoc:
  "valid_proof G A (q @ [s])
     = (valid_proof G A q \<and> snd s \<in> set (rule_outputs G (fst s) (end_of A q)))"
proof (induction q arbitrary: A)
  case Nil
  show ?case by (cases s) simp
next
  case (Cons x q)
  then show ?case by (cases x) (simp add: end_of_Cons)
qed

lemma proper_snoc:
  "proper A (q @ [s]) = (proper A q \<and> \<not> are_expressions_equivalent (snd s) (end_of A q))"
  by (induction q arbitrary: A) (auto simp: end_of_Cons)

lemma uniq_subset: "set (uniq xs seen) \<subseteq> set xs"
proof (induction xs arbitrary: seen)
  case Nil
  show ?case by simp
next
  case (Cons x xs)
  obtain l out where x: "x = (l, out)" by (cases x)
  from Cons[of seen] Cons[of "insert (state_key out) seen"] x show ?case
    by (auto simp: Let_def)
qed

lemma uniq_covers:
  "s \<in> set xs \<Longrightarrow> state_key (snd s) \<notin> seen \<Longrightarrow>
   \<exists>s' \<in> set (uniq xs seen). state_key (snd s') = state_key (snd s)"
proof (induction xs arbitrary: seen)
  case Nil
  then show ?case by simp
next
  case (Cons x xs)
  obtain l out where x: "x = (l, out)" by (cases x)
  show ?case
  proof (cases "state_key out \<in> seen")
    case True
    with Cons.prems x have "s \<in> set xs" by auto
    from Cons.IH[OF this Cons.prems(2)] True x show ?thesis by simp
  next
    case False
    show ?thesis
    proof (cases "state_key (snd s) = state_key out")
      case True
      with False x show ?thesis by (auto simp: Let_def)
    next
      case ne: False
      with Cons.prems x have "s \<in> set xs" "state_key (snd s) \<notin> insert (state_key out) seen"
        by auto
      from Cons.IH[OF this] False x show ?thesis by (auto simp: Let_def)
    qed
  qed
qed

lemma rule_outputs_1: "rule_outputs G ''Do-calculus Rule 1'' t = apply_rule_1_all G t"
  by (simp add: rule_outputs_def)

lemma rule_outputs_2: "rule_outputs G ''Do-calculus Rule 2'' t = apply_rule_2_all G t"
  by (simp add: rule_outputs_def)

lemma rule_outputs_3:
  "rule_outputs G ''Do-calculus Rule 3'' t
     = (case apply_rule_3_all G t of Inl e \<Rightarrow> [] | Inr outs \<Rightarrow> outs)"
  by (simp add: rule_outputs_def)

lemma rule_outputs_cases:
  assumes "n \<in> set (rule_outputs G l t)"
  shows "(l = ''Do-calculus Rule 1'' \<and> n \<in> set (apply_rule_1_all G t))
       \<or> (l = ''Do-calculus Rule 2'' \<and> n \<in> set (apply_rule_2_all G t))
       \<or> (l = ''Do-calculus Rule 3''
            \<and> n \<in> set (case apply_rule_3_all G t of Inl e \<Rightarrow> [] | Inr outs \<Rightarrow> outs))"
proof -
  consider "l = ''Do-calculus Rule 1''" | "l = ''Do-calculus Rule 2''" | "l = ''Do-calculus Rule 3''"
    | "l \<noteq> ''Do-calculus Rule 1'' \<and> l \<noteq> ''Do-calculus Rule 2'' \<and> l \<noteq> ''Do-calculus Rule 3''"
    by blast
  then show ?thesis
  proof cases
    case 1
    with assms show ?thesis by (simp add: rule_outputs_1)
  next
    case 2
    with assms show ?thesis by (simp add: rule_outputs_2)
  next
    case 3
    with assms show ?thesis by (simp add: rule_outputs_3)
  next
    case 4
    with assms show ?thesis by (simp add: rule_outputs_def)
  qed
qed

lemma successor_valid:
  assumes "s \<in> set (do_calculus_successors f t)"
  shows "snd s \<in> set (rule_outputs (build_graph (causal_structure f)) (fst s) t)
         \<and> \<not> are_expressions_equivalent (snd s) t"
proof -
  let ?G = "build_graph (causal_structure f)"
  let ?keep = "filter (\<lambda>out. \<not> are_expressions_equivalent out t)"
  let ?r3 = "case apply_rule_3_all ?G t of Inl e \<Rightarrow> [] | Inr outs \<Rightarrow> outs"
  let ?succs = "map (Pair ''Do-calculus Rule 1'') (?keep (apply_rule_1_all ?G t))
            @ map (Pair ''Do-calculus Rule 2'') (?keep (apply_rule_2_all ?G t))
            @ map (Pair ''Do-calculus Rule 3'') (?keep ?r3)"
  from assms have "s \<in> set (uniq ?succs {})"
    unfolding do_calculus_successors_def Let_def .
  with uniq_subset have "s \<in> set ?succs" by blast
  then consider "s \<in> set (map (Pair ''Do-calculus Rule 1'') (?keep (apply_rule_1_all ?G t)))"
    | "s \<in> set (map (Pair ''Do-calculus Rule 2'') (?keep (apply_rule_2_all ?G t)))"
    | "s \<in> set (map (Pair ''Do-calculus Rule 3'') (?keep ?r3))"
    by auto
  then show ?thesis
  proof cases
    case 1
    then show ?thesis by (auto simp: rule_outputs_1)
  next
    case 2
    then show ?thesis by (auto simp: rule_outputs_2)
  next
    case 3
    then show ?thesis by (auto simp: rule_outputs_3)
  qed
qed

lemma valid_successor:
  assumes "n \<in> set (rule_outputs (build_graph (causal_structure f)) l t)"
    and "\<not> are_expressions_equivalent n t"
  shows "\<exists>s' \<in> set (do_calculus_successors f t). state_key (snd s') = state_key n"
proof -
  let ?G = "build_graph (causal_structure f)"
  let ?keep = "filter (\<lambda>out. \<not> are_expressions_equivalent out t)"
  let ?r3 = "case apply_rule_3_all ?G t of Inl e \<Rightarrow> [] | Inr outs \<Rightarrow> outs"
  let ?succs = "map (Pair ''Do-calculus Rule 1'') (?keep (apply_rule_1_all ?G t))
            @ map (Pair ''Do-calculus Rule 2'') (?keep (apply_rule_2_all ?G t))
            @ map (Pair ''Do-calculus Rule 3'') (?keep ?r3)"
  from rule_outputs_cases[OF assms(1)] assms(2) have "(l, n) \<in> set ?succs" by auto
  from uniq_covers[OF this, of "{}"] obtain s' where
    "s' \<in> set (uniq ?succs {})" "state_key (snd s') = state_key n" by auto
  then show ?thesis
    unfolding do_calculus_successors_def Let_def by blast
qed

lemma chain_valid:
  "chain f A p \<Longrightarrow> valid_proof (build_graph (causal_structure f)) A p \<and> proper A p"
proof (induction p arbitrary: A)
  case Nil
  show ?case by simp
next
  case (Cons s p)
  then show ?case using successor_valid[of s f A] by (cases s) auto
qed

lemma reach_subset_derivable: "reach f A \<subseteq> derivable (build_graph (causal_structure f)) A"
  unfolding reach_def derivable_def using chain_valid by blast

lemma valid_chain:
  assumes inj: "inj_on state_key (derivable (build_graph (causal_structure f)) A)"
  shows "valid_proof (build_graph (causal_structure f)) A q \<Longrightarrow> proper A q \<Longrightarrow>
         \<exists>q'. chain f A q' \<and> length q' = length q \<and> end_of A q' = end_of A q"
proof (induction q rule: rev_induct)
  case Nil
  have "chain f A [] \<and> length ([]::step list) = length ([]::step list) \<and> end_of A [] = end_of A []"
    by simp
  then show ?case by blast
next
  case (snoc s q)
  let ?G = "build_graph (causal_structure f)"
  from snoc.prems have v: "valid_proof ?G A q" "snd s \<in> set (rule_outputs ?G (fst s) (end_of A q))"
    and p: "proper A q" "\<not> are_expressions_equivalent (snd s) (end_of A q)"
    by (simp_all add: valid_proof_snoc proper_snoc)
  from snoc.IH[OF v(1) p(1)] obtain q' where
    q': "chain f A q'" "length q' = length q" "end_of A q' = end_of A q" by blast
  from valid_successor[OF v(2) p(2)] obtain s' where
    s': "s' \<in> set (do_calculus_successors f (end_of A q))" "state_key (snd s') = state_key (snd s)"
    by blast
  from q' s'(1) have c: "chain f A (q' @ [s'])" by (simp add: chain_snoc)
  from chain_valid[OF c] have "snd s' \<in> derivable ?G A"
    unfolding derivable_def using end_of_snoc[of A q' s'] by blast
  moreover from snoc.prems(1) have "snd s \<in> derivable ?G A"
    unfolding derivable_def using end_of_snoc[of A q s] by blast
  ultimately have "snd s' = snd s" using inj s'(2) by (auto dest: inj_onD)
  with c q' have "chain f A (q' @ [s']) \<and> length (q' @ [s']) = length (q @ [s])
                  \<and> end_of A (q' @ [s']) = end_of A (q @ [s])"
    by simp
  then show ?case by blast
qed

lemma derivable_closed:
  assumes "A \<in> S"
    and "\<forall>t \<in> S. set (apply_rule_1_all G t) \<subseteq> S \<and> set (apply_rule_2_all G t) \<subseteq> S
           \<and> set (case apply_rule_3_all G t of Inl e \<Rightarrow> [] | Inr outs \<Rightarrow> outs) \<subseteq> S"
  shows "derivable G A \<subseteq> S"
proof -
  have step: "n \<in> S" if "t \<in> S" "n \<in> set (rule_outputs G l t)" for t n l
    using rule_outputs_cases[OF that(2)] that(1) assms(2) by auto
  have "valid_proof G B q \<Longrightarrow> B \<in> S \<Longrightarrow> end_of B q \<in> S" for B q
  proof (induction q arbitrary: B)
    case Nil
    then show ?case by simp
  next
    case (Cons x q)
    obtain l n where x: "x = (l, n)" by (cases x)
    with Cons.prems step have "n \<in> S" by auto
    with Cons x show ?case by (simp add: end_of_Cons)
  qed
  with assms(1) show ?thesis unfolding derivable_def by blast
qed

text \<open>
  Apart from steps to an equivalent term, the search is a breadth-first search: with
  \<open>max_depth \<le> 0\<close> a pair of terms that are not equivalent yields \<open>None\<close>; a returned
  proof has at most \<open>max_depth\<close> steps, is valid and ends in a term that matches the target;
  and when the state key tells apart the terms derivable from the start, no proper valid
  proof that ends in a term matching the target is shorter than the returned one.
\<close>

lemma search_returns_shortest_proper_proof:
  "(max_depth f \<le> 0 \<and> \<not> are_expressions_equivalent A B \<longrightarrow>
      find_proof simplify f (Prob A) (Prob B) = Inr None)
   \<and> (find_proof simplify f (Prob A) (Prob B) = Inr (Some (Steps p)) \<longrightarrow>
        int (length p) \<le> max 0 (max_depth f)
        \<and> valid_proof (build_graph (causal_structure f)) A p
        \<and> matches (end_of A p) B
        \<and> (inj_on state_key (derivable (build_graph (causal_structure f)) A)
            \<and> valid_proof (build_graph (causal_structure f)) A q \<and> proper A q
            \<and> matches (end_of A q) B \<longrightarrow> length p \<le> length q))"
proof (intro conjI impI)
  assume "max_depth f \<le> 0 \<and> \<not> are_expressions_equivalent A B"
  then show "find_proof simplify f (Prob A) (Prob B) = Inr None"
    by (simp add: find_proof_Prob find_proof_single_depth_0)
next
  assume "find_proof simplify f (Prob A) (Prob B) = Inr (Some (Steps p))"
  then have s: "find_proof_single f A B = Some p"
    by (auto simp: find_proof_Prob)
  then show "int (length p) \<le> max 0 (max_depth f)"
    by (rule find_proof_single_length)
  from find_proof_single_chain[OF s] chain_valid[of f A p]
  show "valid_proof (build_graph (causal_structure f)) A p" and "matches (end_of A p) B"
    by simp_all
  assume h: "inj_on state_key (derivable (build_graph (causal_structure f)) A)
            \<and> valid_proof (build_graph (causal_structure f)) A q \<and> proper A q
            \<and> matches (end_of A q) B"
  then obtain q' where q': "chain f A q'" "length q' = length q" "end_of A q' = end_of A q"
    using valid_chain[of f A q] by blast
  from h have "inj_on state_key (reach f A)"
    using inj_on_subset[OF _ reach_subset_derivable] by blast
  from find_proof_single_shortest[OF s this q'(1)] h q'(2,3)
  show "length p \<le> length q" by simp
qed

text \<open>
  An instance: on the graph with the isolated vertices \<open>Z\<close> and \<open>Y\<close>, the terms derivable from
  \<open>P(Y | do(Z))\<close> are itself, \<open>P(Y | Z)\<close> and \<open>P(Y)\<close>, with three different state keys; the
  search to \<open>P(Y)\<close> returns the one-step proof by Rule 3, and the proper proof by Rule 2
  then Rule 1 is not shorter.
\<close>

lemma search_returns_shortest_proper_proof_example:
  "find_proof (\<lambda>e. e) \<lparr>causal_structure = [(''Z'', []), (''Y'', [])], max_depth = 0\<rparr>
      (Prob (CausalProbability (Symbol ''Y'') [Do ''Z'' None]))
      (Prob (CausalProbability (Symbol ''Y'') [])) = Inr None
   \<and> find_proof (\<lambda>e. e) \<lparr>causal_structure = [(''Z'', []), (''Y'', [])], max_depth = 3\<rparr>
      (Prob (CausalProbability (Symbol ''Y'') [Do ''Z'' None]))
      (Prob (CausalProbability (Symbol ''Y'') []))
      = Inr (Some (Steps [(''Do-calculus Rule 3'', CausalProbability (Symbol ''Y'') [])]))
   \<and> inj_on state_key
        (derivable (build_graph [(''Z'', []), (''Y'', [])])
           (CausalProbability (Symbol ''Y'') [Do ''Z'' None]))
   \<and> valid_proof (build_graph [(''Z'', []), (''Y'', [])])
        (CausalProbability (Symbol ''Y'') [Do ''Z'' None])
        [(''Do-calculus Rule 2'', CausalProbability (Symbol ''Y'') [Symbol ''Z'']),
         (''Do-calculus Rule 1'', CausalProbability (Symbol ''Y'') [])]
   \<and> proper (CausalProbability (Symbol ''Y'') [Do ''Z'' None])
        [(''Do-calculus Rule 2'', CausalProbability (Symbol ''Y'') [Symbol ''Z'']),
         (''Do-calculus Rule 1'', CausalProbability (Symbol ''Y'') [])]
   \<and> length [(''Do-calculus Rule 3'', CausalProbability (Symbol ''Y'') [])]
       \<le> length [(''Do-calculus Rule 2'', CausalProbability (Symbol ''Y'') [Symbol ''Z'']),
                  (''Do-calculus Rule 1'', CausalProbability (Symbol ''Y'') [])]"
proof -
  let ?G = "build_graph [(''Z'', []), (''Y'', [])]"
  let ?A = "CausalProbability (Symbol ''Y'') [Do ''Z'' None]"
  let ?M = "CausalProbability (Symbol ''Y'') [Symbol ''Z'']"
  let ?B = "CausalProbability (Symbol ''Y'') []"
  let ?q = "[(''Do-calculus Rule 2'', ?M), (''Do-calculus Rule 1'', ?B)]"
  have a: "\<not> are_expressions_equivalent ?A ?B"
    by code_simp
  have b: "find_proof (\<lambda>e. e) \<lparr>causal_structure = [(''Z'', []), (''Y'', [])], max_depth = 3\<rparr>
      (Prob ?A) (Prob ?B) = Inr (Some (Steps [(''Do-calculus Rule 3'', ?B)]))"
    by code_simp
  have c: "valid_proof ?G ?A ?q" "proper ?A ?q" "matches (end_of ?A ?q) ?B"
    by code_simp+
  have "?A \<in> set [?A, ?M, ?B]" by simp
  moreover have "\<forall>t \<in> set [?A, ?M, ?B].
      set (apply_rule_1_all ?G t) \<subseteq> set [?A, ?M, ?B] \<and> set (apply_rule_2_all ?G t) \<subseteq> set [?A, ?M, ?B]
      \<and> set (case apply_rule_3_all ?G t of Inl e \<Rightarrow> [] | Inr outs \<Rightarrow> outs) \<subseteq> set [?A, ?M, ?B]"
    by code_simp
  ultimately have "derivable ?G ?A \<subseteq> set [?A, ?M, ?B]" by (rule derivable_closed)
  moreover have "inj_on state_key (set [?A, ?M, ?B])" by code_simp
  ultimately have inj: "inj_on state_key (derivable ?G ?A)" by (rule inj_on_subset[rotated])
  from a b c inj
    search_returns_shortest_proper_proof[of
      "\<lparr>causal_structure = [(''Z'', []), (''Y'', [])], max_depth = 0\<rparr>" ?A ?B "\<lambda>e. e"]
    search_returns_shortest_proper_proof[of
      "\<lparr>causal_structure = [(''Z'', []), (''Y'', [])], max_depth = 3\<rparr>" ?A ?B "\<lambda>e. e"
      "[(''Do-calculus Rule 3'', ?B)]" ?q]
  show ?thesis by simp
qed

end
